theory Spec2Isabelle
  imports Main "HOL-Library.Sublist" "HOL-Library.AList"
begin

section \<open>JavaScript string and number primitives used by the command handlers\<close>

text \<open>
  Strings are byte lists. The handlers only split on and compare with ASCII literals, so
  the byte view and JavaScript's UTF-16 view cut a string at the same places.
\<close>

text \<open>\<^verbatim>\<open>xs[i]\<close> on a JavaScript array: \<^verbatim>\<open>undefined\<close> (here \<open>None\<close>) out of range.\<close>

fun nth_opt :: "'a list \<Rightarrow> nat \<Rightarrow> 'a option" where
  "nth_opt [] i = None"
| "nth_opt (x # xs) 0 = Some x"
| "nth_opt (x # xs) (Suc i) = nth_opt xs i"

text \<open>\<^verbatim>\<open>s.startsWith(p)\<close>.\<close>

definition startsWith :: "string \<Rightarrow> string \<Rightarrow> bool" where
  "startsWith s p = prefix p s"

text \<open>
  \<^verbatim>\<open>s.split(sep)\<close> for a string separator: the pieces between the non-overlapping
  occurrences of \<open>sep\<close>, found from left to right. \<open>acc\<close> is the piece being read.
\<close>

function split_from :: "string \<Rightarrow> string \<Rightarrow> string \<Rightarrow> string list" where
  "split_from sep acc [] = [acc]"
| "split_from sep acc (c # cs) =
     (if sep \<noteq> [] \<and> prefix sep (c # cs)
      then acc # split_from sep [] (drop (length sep) (c # cs))
      else split_from sep (acc @ [c]) cs)"
  by pat_completeness auto
termination
  by (relation "measure (\<lambda>(sep, acc, s). length s)") auto

definition split :: "string \<Rightarrow> string \<Rightarrow> string list" where
  "split s sep = (if sep = [] then map (\<lambda>c. [c]) s else split_from sep [] s)"

text \<open>
  JavaScript numbers are IEEE doubles. The embedding computes with the integers that a
  double holds exactly (absolute value at most \<open>2^53\<close>) and keeps every other number as
  the unevaluated expression that produced it, so it never asserts a rounded value.
\<close>

datatype jsnum =
    Exact int
  | NaN
  | NumberOf string
  | Times jsnum jsnum
  | Plus jsnum jsnum

definition max_exact :: int where
  "max_exact = 9007199254740992"

definition is_digit :: "char \<Rightarrow> bool" where
  "is_digit c \<longleftrightarrow> 48 \<le> (of_char c :: nat) \<and> (of_char c :: nat) \<le> 57"

fun decimal_from :: "nat \<Rightarrow> string \<Rightarrow> nat" where
  "decimal_from acc [] = acc"
| "decimal_from acc (c # cs) = decimal_from (acc * 10 + ((of_char c :: nat) - 48)) cs"

definition decimal_value :: "string \<Rightarrow> nat" where
  "decimal_value s = decimal_from 0 s"

text \<open>
  \<^verbatim>\<open>Number(s)\<close> on a string: the empty string is 0, a string of decimal digits is its
  value; any other string (white space, sign, fraction, exponent, radix prefix, a non-number)
  and any value beyond \<open>2^53\<close> stays unevaluated.
\<close>

definition Number_js :: "string \<Rightarrow> jsnum" where
  "Number_js s =
     (if s = [] then Exact 0
      else if list_all is_digit s \<and> int (decimal_value s) \<le> max_exact
      then Exact (int (decimal_value s))
      else NumberOf s)"

text \<open>\<^verbatim>\<open>Number(x)\<close> where \<open>x\<close> may be \<^verbatim>\<open>undefined\<close>: \<^verbatim>\<open>Number(undefined)\<close> is NaN.\<close>

definition Number_opt :: "string option \<Rightarrow> jsnum" where
  "Number_opt x = (case x of None \<Rightarrow> NaN | Some s \<Rightarrow> Number_js s)"

fun js_times :: "jsnum \<Rightarrow> jsnum \<Rightarrow> jsnum" where
  "js_times (Exact a) (Exact b) =
     (if \<bar>a * b\<bar> \<le> max_exact then Exact (a * b) else Times (Exact a) (Exact b))"
| "js_times x y = Times x y"

fun js_plus :: "jsnum \<Rightarrow> jsnum \<Rightarrow> jsnum" where
  "js_plus (Exact a) (Exact b) =
     (if \<bar>a + b\<bar> \<le> max_exact then Exact (a + b) else Plus (Exact a) (Exact b))"
| "js_plus x y = Plus x y"

section \<open>The seek argument (Seek.ts, and the \<^verbatim>\<open>/seek\<close> branch of connectionHandler.ts)\<close>

text \<open>
  The value handed to \<^verbatim>\<open>env.seek.next\<close>, or \<open>None\<close> when nothing is emitted
  (\<^verbatim>\<open>if (seek)\<close> fails: no text after \<^verbatim>\<open>'/seek '\<close>).
\<close>

definition seek_offset :: "string \<Rightarrow> jsnum option" where
  "seek_offset content =
     (case nth_opt (split content ''/seek '') 1 of
        None \<Rightarrow> None
      | Some seek \<Rightarrow>
          if seek = [] then None
          else
            let splitSeek = split seek '':'' in
            if length splitSeek > 1 then
              let minutes = (case nth_opt splitSeek 0 of None \<Rightarrow> Exact 0 | Some a \<Rightarrow> Number_js a);
                  seconds = (case nth_opt splitSeek 1 of None \<Rightarrow> Exact 0 | Some b \<Rightarrow> Number_js b)
              in Some (js_plus (js_times minutes (Exact 60)) seconds)
            else Some (Number_js seek))"

section \<open>connectionHandler.ts: messages, sessions and the channel registry\<close>

text \<open>
  The fields of a discord \<^verbatim>\<open>Message\<close> that the handler reads: \<^verbatim>\<open>author.bot\<close>,
  \<^verbatim>\<open>content\<close>, \<^verbatim>\<open>member?.voice.channel?.id\<close> (absent when the author is in no voice
  channel) and \<^verbatim>\<open>channel\<close>, the text channel that replies are sent to.
\<close>

record message =
  author_bot :: bool
  content :: string
  voice_channel :: "string option"
  text_channel :: string

text \<open>\<^verbatim>\<open>MsgEvent\<close>: the message and the database pool handed on to the query resolver.\<close>

record msg_event =
  msg :: message
  pool :: nat

text \<open>The fields of \<^verbatim>\<open>Environment\<close>, in the order \<^verbatim>\<open>initEnvironment\<close> creates them.\<close>

datatype subject =
    SendMessage
  | CurrentlyPlaying
  | NextItemInPlaylist
  | AddItemToQueue
  | AddNextItemToQueue
  | PrintQueueRequest
  | RemoveFromQueue
  | Disconnect
  | SetBassLevel
  | Seek

definition env_subjects :: "subject list" where
  "env_subjects =
     [SendMessage, CurrentlyPlaying, NextItemInPlaylist, AddItemToQueue, AddNextItemToQueue,
      PrintQueueRequest, RemoveFromQueue, Disconnect, SetBassLevel, Seek]"

record item =
  item_name :: string
  item_link :: string

datatype payload =
    PNull
  | PString string
  | PNumber jsnum
  | PItem item
  | PRemove jsnum jsnum

text \<open>
  What \<^verbatim>\<open>QueryResolver.resolve\<close> (not part of these sources) can do: return an item,
  return nothing, or throw; the thrown value is kept as the text \<^verbatim>\<open>`${e}`\<close> prints.
\<close>

datatype resolved = Found item | NotFound | Threw string

text \<open>
  Everything the handler does to the outside, in the order it does it. \<open>Deliver\<close> is an
  emission on an environment subject reaching the subscribers that
  \<^verbatim>\<open>ObservablePlaylist.init\<close> and \<^verbatim>\<open>Player.init\<close> registered (their code is not part
  of these sources); the subscribers that connectionHandler.ts registers itself are run by
  the model.
\<close>

datatype effect =
    LogInfo string
  | LogError string
  | ChannelSend string string
  | ChannelSendHelp string "(string \<times> string) list"
  | PlaylistInit nat
  | PlayerInit nat
  | Deliver nat subject payload
  | Completed nat subject
  | ObserverUnsubscribed nat
  | ChannelObserverCompleted nat
  | RegistryDeleted string
  | UncaughtTypeError
  | UnhandledRejection
  | AudioPlayerStop nat
  | VoiceConnectionDisconnect nat

text \<open>
  One call of \<^verbatim>\<open>initCmdObserver\<close> makes one session: the channel's
  \<^verbatim>\<open>Subject<MsgEvent>\<close>, its environment and, once \<^verbatim>\<open>await Player.init\<close> has
  returned, the command observer subscribed to the subject (line 144) and the player.
  \<open>reply_channel\<close> is the text channel of the message that created the session (the
  \<^verbatim>\<open>message\<close> the closures capture); \<open>completed\<close> holds the environment subjects on
  which \<^verbatim>\<open>complete()\<close> has run; \<open>player_connected\<close> says that the session's player
  has been initialised and not disconnected.
\<close>

record session =
  sid :: nat
  chan :: string
  reply_channel :: string
  completed :: "subject set"
  observer_subscribed :: bool
  channel_completed :: bool
  player_connected :: bool

text \<open>
  \<open>msgObservers\<close> is the \<^verbatim>\<open>Map\<close> of initMsgHandler, holding object identities;
  \<open>heap\<close> holds every session object ever created, also those no longer registered.

  The handler is asynchronous in two places, and the state holds what is suspended there.
  \<open>initialising\<close>: the calls of the subscriber of line 53 that wait at
  \<^verbatim>\<open>await initCmdObserver(...)\<close> (line 58), itself waiting at \<^verbatim>\<open>await Player.init\<close>
  (line 83); each entry is the session, the \<^verbatim>\<open>channelId\<close> and the message \<^verbatim>\<open>v\<close> of that
  call. \<open>resolving\<close>: the calls of \<^verbatim>\<open>addItemToQueue\<close> that wait at
  \<^verbatim>\<open>await QueryResolver.resolve\<close> (line 150), which the command observer starts and
  does not await (lines 163 and 165); each entry is the session, the message and the
  subject that the callback emits on.
\<close>

record bot_state =
  msgObservers :: "string \<rightharpoonup> nat"
  heap :: "nat \<rightharpoonup> session"
  next_id :: nat
  initialising :: "(nat \<times> string \<times> msg_event) list"
  resolving :: "(nat \<times> msg_event \<times> subject) list"

definition init_state :: bot_state where
  "init_state = \<lparr>msgObservers = Map.empty, heap = Map.empty, next_id = 0,
                  initialising = [], resolving = []\<rparr>"

text \<open>
  The session as \<^verbatim>\<open>initCmdObserver\<close> has it when it reaches \<^verbatim>\<open>await Player.init\<close>:
  the subject and the environment exist, nothing is subscribed to the subject.
\<close>

definition new_session :: "nat \<Rightarrow> string \<Rightarrow> message \<Rightarrow> session" where
  "new_session i ch m =
     \<lparr>sid = i, chan = ch, reply_channel = text_channel m, completed = {},
      observer_subscribed = False, channel_completed = False, player_connected = False\<rparr>"

text \<open>
  What the rest of \<^verbatim>\<open>initCmdObserver\<close> (lines 85 to 209) does to the session once
  \<^verbatim>\<open>Player.init\<close> has returned: the player exists and the command observer is
  subscribed.
\<close>

definition initialised :: "session \<Rightarrow> session" where
  "initialised s = s\<lparr>observer_subscribed := True, player_connected := True\<rparr>"

text \<open>A session that still receives commands.\<close>

definition live :: "session \<Rightarrow> bool" where
  "live s \<longleftrightarrow> observer_subscribed s \<and> \<not> channel_completed s"

text \<open>
  \<^verbatim>\<open>env.sendMessage.next(text)\<close>. A completed subject drops the emission. Otherwise the
  subscriber of line 75 sends the embed to the session's text channel; it subscribed before
  the playlist and the player were initialised, so it runs first.
\<close>

definition send_message :: "session \<Rightarrow> string \<Rightarrow> effect list" where
  "send_message s text =
     (if SendMessage \<in> completed s then []
      else [ChannelSend (reply_channel s) text, Deliver (sid s) SendMessage (PString text)])"

text \<open>\<^verbatim>\<open>subject.complete()\<close> for each environment subject; a second \<open>complete\<close> does nothing.\<close>

fun complete_all :: "nat \<Rightarrow> subject set \<Rightarrow> subject list \<Rightarrow> subject set \<times> effect list" where
  "complete_all i done [] = (done, [])"
| "complete_all i done (x # xs) =
     (if x \<in> done then complete_all i done xs
      else (let (done', es) = complete_all i (insert x done) xs
            in (done', Completed i x # es)))"

text \<open>
  The subscriber of \<^verbatim>\<open>env.disconnect\<close> (lines 199 to 209). The flag returned says that
  \<^verbatim>\<open>unsubscribe()\<close> ran, which deletes the registry entry of the channel the session
  was created for.
\<close>

definition teardown :: "session \<Rightarrow> session \<times> effect list \<times> bool" where
  "teardown s =
     (let bye = send_message s ''Bye!'';
          (done, cs) = complete_all (sid s) (completed s) env_subjects;
          unsub = (if observer_subscribed s then [ObserverUnsubscribed (sid s)] else []);
          fin = (if channel_completed s then [] else [ChannelObserverCompleted (sid s)])
      in (s\<lparr>completed := done, observer_subscribed := False, channel_completed := True\<rparr>,
          bye @ cs @ unsub @ fin @ [RegistryDeleted (chan s)],
          True))"

text \<open>What the teardown of an opened session does, step by step.\<close>

definition teardown_effects :: "session \<Rightarrow> effect list" where
  "teardown_effects s =
     [ChannelSend (reply_channel s) ''Bye!'', Deliver (sid s) SendMessage (PString ''Bye!'')]
     @ map (Completed (sid s)) env_subjects
     @ [ObserverUnsubscribed (sid s), ChannelObserverCompleted (sid s), RegistryDeleted (chan s)]"

text \<open>
  Modelled from the spec: what the emission on \<^verbatim>\<open>env.disconnect\<close> does to the session's
  player. The subscriber that \<^verbatim>\<open>Player.init\<close> registers is not part of these sources;
  the spec has the \<^verbatim>\<open>/disconnect\<close> sequence disconnect the Player before the event
  channels are completed.
\<close>

definition player_disconnected :: "session \<Rightarrow> session" where
  "player_disconnected s = s\<lparr>player_connected := False\<rparr>"

text \<open>
  \<^verbatim>\<open>env.<subject>.next(value)\<close>: nothing on a completed subject; otherwise the
  subscribers run in the order they subscribed. Those of the playlist and the player
  (lines 82 and 83) come before the ones of lines 85, 89 and 199, which exist only once
  \<^verbatim>\<open>initCmdObserver\<close> has gone past its \<^verbatim>\<open>await\<close>: from then on the command observer
  is subscribed, until the teardown that completes every subject.
\<close>

definition env_next :: "session \<Rightarrow> subject \<Rightarrow> payload \<Rightarrow> session \<times> effect list \<times> bool" where
  "env_next s subj v =
     (if subj \<in> completed s then (s, [], False)
      else case subj of
          SendMessage \<Rightarrow>
            (case v of
               PString text \<Rightarrow> (s, send_message s text, False)
             | _ \<Rightarrow> (s, [Deliver (sid s) SendMessage v], False))
        | AddItemToQueue \<Rightarrow>
            (case v of
               PItem it \<Rightarrow>
                 (s, Deliver (sid s) AddItemToQueue v
                       # (if observer_subscribed s
                          then send_message s (item_name it @ '' has been added to the queue.'')
                          else []), False)
             | _ \<Rightarrow> (s, [Deliver (sid s) AddItemToQueue v], False))
        | AddNextItemToQueue \<Rightarrow>
            (case v of
               PItem it \<Rightarrow>
                 (s, Deliver (sid s) AddNextItemToQueue v
                       # (if observer_subscribed s
                          then send_message s (item_name it @ '' will be played next.'')
                          else []), False)
             | _ \<Rightarrow> (s, [Deliver (sid s) AddNextItemToQueue v], False))
        | Disconnect \<Rightarrow>
            (if observer_subscribed s
             then (let (s', es, u) = teardown (player_disconnected s)
                   in (s', Deliver (sid s) Disconnect v # es, u))
             else (s, [Deliver (sid s) Disconnect v], False))
        | _ \<Rightarrow> (s, [Deliver (sid s) subj v], False))"

definition help_commands :: "(string \<times> string) list" where
  "help_commands =
     [(''/play url | query'', ''Play a track or queue it if a track is already playing.''),
      (''/playnext url | query'', ''Skips the queue and adds the track as the next song.''),
      (''/skip'', ''Skip the current track.''),
      (''/bass level'', ''Set the bass level of the current and the following songs.''),
      (''/seek seconds | minutes:seconds'', ''Seek current playing song to the provided time.''),
      (''/queue'', ''Print the current queue.''),
      (''/remove fromIndex [toIndex]'', ''Skip the current track.''),
      (''/disconnect'', ''Disconnects the bot from the current channel.''),
      (''/help'', ''Print this message.'')]"

text \<open>
  \<^verbatim>\<open>addItemToQueue\<close> (lines 148 to 160) from the point where
  \<^verbatim>\<open>await QueryResolver.resolve\<close> returns, with \<open>r\<close> what the resolver did and \<open>s\<close>
  the session as it is at that moment: the resolver's result goes to the callback, a
  missing result and a thrown error each go to \<^verbatim>\<open>env.sendMessage\<close>, the error after it
  has been logged.
\<close>

definition addItemToQueue ::
  "resolved \<Rightarrow> session \<Rightarrow> msg_event \<Rightarrow> subject \<Rightarrow> session \<times> effect list \<times> bool" where
  "addItemToQueue r s v cb =
     (case r of
        Found newItem \<Rightarrow> env_next s cb (PItem newItem)
      | NotFound \<Rightarrow> (s, send_message s (''Unable to find result for: '' @ content (msg v)), False)
      | Threw e \<Rightarrow>
          (s, LogError e # send_message s (''Unable to add song to playlist: '' @ e), False))"

text \<open>
  A branch of the command observer that runs to its end at once: no call of the resolver is
  left waiting.
\<close>

definition at_once ::
  "session \<times> effect list \<times> bool \<Rightarrow> session \<times> effect list \<times> bool \<times> subject option" where
  "at_once r = (fst r, fst (snd r), snd (snd r), None)"

text \<open>
  The command observer (lines 144 to 197), reached through \<^verbatim>\<open>channelObserver.next(v)\<close>:
  nothing arrives while no observer is subscribed to the subject (before line 144 has run,
  and after \<^verbatim>\<open>observer.unsubscribe()\<close>) or once the subject is completed. The last
  component is the subject of the callback when the command starts \<^verbatim>\<open>addItemToQueue\<close>:
  that call runs up to its \<^verbatim>\<open>await\<close> and the observer returns without waiting for it.
\<close>

definition observer_next ::
  "session \<Rightarrow> msg_event \<Rightarrow> session \<times> effect list \<times> bool \<times> subject option" where
  "observer_next s v =
     (let c = content (msg v) in
      if channel_completed s \<or> \<not> observer_subscribed s then (s, [], False, None)
      else if startsWith c ''/playnext'' then (s, [], False, Some AddNextItemToQueue)
      else if startsWith c ''/play'' then (s, [], False, Some AddItemToQueue)
      else if c = ''/help'' then (s, [ChannelSendHelp (reply_channel s) help_commands], False, None)
      else if startsWith c ''/seek'' then
        (case seek_offset c of
           None \<Rightarrow> (s, [], False, None)
         | Some n \<Rightarrow> at_once (env_next s Seek (PNumber n)))
      else if c = ''/skip'' then at_once (env_next s NextItemInPlaylist PNull)
      else if startsWith c ''/bass'' then
        at_once (env_next s SetBassLevel (PNumber (Number_opt (nth_opt (split c '' '') 1))))
      else if startsWith c ''/remove'' then
        (let removeCmd = split c '' '';
             from = Number_opt (nth_opt removeCmd 1);
             to = (case nth_opt removeCmd 2 of None \<Rightarrow> from | Some t \<Rightarrow> Number_js t)
         in at_once (env_next s RemoveFromQueue (PRemove from to)))
      else if c = ''/queue'' then at_once (env_next s PrintQueueRequest PNull)
      else if c = ''/disconnect'' then at_once (env_next s Disconnect PNull)
      else (s, send_message s
                 (''Unknown command: `'' @ c @ ''`, type `/help` for available commands.''),
            False, None))"

text \<open>
  One message through the pipeline of initMsgHandler (lines 26 to 62), as far as it runs
  before it returns to the event loop: the two filters, the channel id (its absence is
  thrown as an \<^verbatim>\<open>ErrorWithMessage\<close> and answered by \<^verbatim>\<open>catchError\<close>, which
  resubscribes), and the subscriber of line 53. When the registry has no subject for the
  channel, the subscriber registers a new one and calls \<^verbatim>\<open>initCmdObserver\<close>, which runs
  up to \<^verbatim>\<open>await Player.init\<close>; the message itself is delivered only when that call has
  returned (\<open>player_ready\<close>). Otherwise the message goes to the registered subject at once.
\<close>

definition no_channel_text :: string where
  "no_channel_text = ''Could not determine channel id, are you joined to a voice channel?''"

definition create_session :: "bot_state \<Rightarrow> string \<Rightarrow> msg_event \<Rightarrow> bot_state \<times> effect list" where
  "create_session st ch v =
     (let i = next_id st in
      (st\<lparr>msgObservers := (msgObservers st)(ch \<mapsto> i),
          heap := (heap st)(i \<mapsto> new_session i ch (msg v)),
          next_id := Suc i,
          initialising := initialising st @ [(i, ch, v)]\<rparr>,
       [LogInfo (''Initializing new observer for: '' @ ch), PlaylistInit i, PlayerInit i]))"

text \<open>
  \<^verbatim>\<open>msgObservers.get(v.channelId)!.next(v)\<close> (line 61). When the observer has started
  \<^verbatim>\<open>addItemToQueue\<close>, that call is left waiting for the resolver.
\<close>

definition deliver :: "bot_state \<Rightarrow> string \<Rightarrow> msg_event \<Rightarrow> bot_state \<times> effect list" where
  "deliver st ch v =
     (case msgObservers st ch of
        None \<Rightarrow> (st, [UncaughtTypeError])
      | Some i \<Rightarrow>
          (case heap st i of
             None \<Rightarrow> (st, [UncaughtTypeError])
           | Some s \<Rightarrow>
               (let (s', es, unsubscribe, started) = observer_next s v;
                    st1 = st\<lparr>heap := (heap st)(i \<mapsto> s')\<rparr>;
                    st2 = (if unsubscribe then st1\<lparr>msgObservers := (msgObservers st1)(chan s := None)\<rparr>
                           else st1)
                in (case started of
                      None \<Rightarrow> st2
                    | Some cb \<Rightarrow> st2\<lparr>resolving := resolving st2 @ [(i, v, cb)]\<rparr>,
                    es))))"

definition handle_msg :: "bot_state \<Rightarrow> msg_event \<Rightarrow> bot_state \<times> effect list" where
  "handle_msg st v =
     (if author_bot (msg v) then (st, [])
      else if \<not> startsWith (content (msg v)) ''/'' then (st, [])
      else case voice_channel (msg v) of
          None \<Rightarrow> (st, [ChannelSend (text_channel (msg v)) no_channel_text])
        | Some ch \<Rightarrow>
            if ch = [] then (st, [ChannelSend (text_channel (msg v)) no_channel_text])
            else if msgObservers st ch = None then create_session st ch v
            else deliver st ch v)"

text \<open>
  \<^verbatim>\<open>Player.init\<close> of session \<open>i\<close> returns: \<^verbatim>\<open>initCmdObserver\<close> runs to its end, which
  subscribes the command observer, and the subscriber of line 53 goes on at line 61 with the
  message that created the session. Both are continuations of promises already settled,
  which run before the next message is taken from the event loop.
\<close>

definition player_ready :: "bot_state \<Rightarrow> nat \<Rightarrow> bot_state \<times> effect list" where
  "player_ready st i =
     (case map_of (initialising st) i of
        None \<Rightarrow> (st, [])
      | Some (ch, v) \<Rightarrow>
          (case heap st i of
             None \<Rightarrow> (st, [])
           | Some s \<Rightarrow>
               deliver (st\<lparr>initialising := AList.delete i (initialising st),
                           heap := (heap st)(i \<mapsto> initialised s)\<rparr>) ch v))"

text \<open>
  \<^verbatim>\<open>Player.init\<close> of session \<open>i\<close> throws: nothing catches the rejection of
  \<^verbatim>\<open>initCmdObserver\<close> nor that of the subscriber of line 53. The subject stays in the
  registry, no observer is subscribed to it and the message is not delivered.
\<close>

definition player_failed :: "bot_state \<Rightarrow> nat \<Rightarrow> bot_state \<times> effect list" where
  "player_failed st i =
     (case map_of (initialising st) i of
        None \<Rightarrow> (st, [])
      | Some (ch, v) \<Rightarrow>
          (st\<lparr>initialising := AList.delete i (initialising st)\<rparr>, [UnhandledRejection]))"

text \<open>
  The resolver answers the \<open>n\<close>-th waiting call of \<^verbatim>\<open>addItemToQueue\<close> with \<open>r\<close>; the call
  goes on with the session as it is by then.
\<close>

definition resolver_done :: "bot_state \<Rightarrow> nat \<Rightarrow> resolved \<Rightarrow> bot_state \<times> effect list" where
  "resolver_done st n r =
     (case nth_opt (resolving st) n of
        None \<Rightarrow> (st, [])
      | Some (i, v, cb) \<Rightarrow>
          (let st0 = st\<lparr>resolving := take n (resolving st) @ drop (Suc n) (resolving st)\<rparr> in
           case heap st i of
             None \<Rightarrow> (st0, [])
           | Some s \<Rightarrow>
               (let (s', es, unsubscribe) = addItemToQueue r s v cb;
                    st1 = st0\<lparr>heap := (heap st0)(i \<mapsto> s')\<rparr>
                in (if unsubscribe then st1\<lparr>msgObservers := (msgObservers st1)(chan s := None)\<rparr>
                    else st1,
                    es))))"

text \<open>
  What the event loop hands to the handler: a message from discord, the outcome of a waiting
  \<^verbatim>\<open>Player.init\<close>, or the outcome of a waiting call of the resolver. A list of events is
  one interleaving.
\<close>

datatype event =
    Message msg_event
  | PlayerReady nat
  | PlayerFailed nat
  | Resolved nat resolved

fun step :: "bot_state \<Rightarrow> event \<Rightarrow> bot_state \<times> effect list" where
  "step st (Message v) = handle_msg st v"
| "step st (PlayerReady i) = player_ready st i"
| "step st (PlayerFailed i) = player_failed st i"
| "step st (Resolved n r) = resolver_done st n r"

text \<open>The handler over a sequence of events, collecting what it did.\<close>

fun run :: "bot_state \<Rightarrow> event list \<Rightarrow> bot_state \<times> effect list" where
  "run st [] = (st, [])"
| "run st (e # es) =
     (let (st1, es1) = step st e;
          (st2, es2) = run st1 es
      in (st2, es1 @ es2))"

text \<open>A message that passes the filters and names its voice channel.\<close>

definition accepted :: "msg_event \<Rightarrow> string \<Rightarrow> bool" where
  "accepted v ch \<longleftrightarrow>
     \<not> author_bot (msg v) \<and> startsWith (content (msg v)) ''/'' \<and>
     voice_channel (msg v) = Some ch \<and> ch \<noteq> []"

text \<open>
  The three conditions a session is found in: with no observer yet (while
  \<^verbatim>\<open>Player.init\<close> is awaited, and for ever when it has thrown), as \<^verbatim>\<open>initCmdObserver\<close>
  leaves it when it returns, and as the subscriber of \<^verbatim>\<open>env.disconnect\<close> leaves it.
\<close>

definition unobserved :: "session \<Rightarrow> bool" where
  "unobserved s \<longleftrightarrow>
     completed s = {} \<and> \<not> observer_subscribed s \<and> \<not> channel_completed s \<and> \<not> player_connected s"

definition opened :: "session \<Rightarrow> bool" where
  "opened s \<longleftrightarrow> completed s = {} \<and> observer_subscribed s \<and> \<not> channel_completed s"

definition torn_down :: "session \<Rightarrow> bool" where
  "torn_down s \<longleftrightarrow> completed s = UNIV \<and> \<not> observer_subscribed s \<and> channel_completed s"

text \<open>
  The registry invariant: a registered identity is a session of that channel that has not
  been torn down; every session ever created is either registered under its channel, or
  torn down and not registered; the sessions with a connected player are the opened ones; a call
  waiting for \<^verbatim>\<open>Player.init\<close> belongs to a registered session without observer; a call
  waiting for the resolver has one of the two queue subjects for its callback and belongs
  to a session that is opened or torn down.
\<close>

definition registry_inv :: "bot_state \<Rightarrow> bool" where
  "registry_inv st \<longleftrightarrow>
     (\<forall>ch i. msgObservers st ch = Some i \<longrightarrow>
        (\<exists>s. heap st i = Some s \<and> chan s = ch \<and> (opened s \<or> unobserved s))) \<and>
     (\<forall>i s. heap st i = Some s \<longrightarrow>
        i < next_id st \<and> sid s = i \<and>
        (if msgObservers st (chan s) = Some i then opened s \<or> unobserved s else torn_down s) \<and>
        (player_connected s \<longleftrightarrow> opened s)) \<and>
     (\<forall>i ch v. map_of (initialising st) i = Some (ch, v) \<longrightarrow>
        msgObservers st ch = Some i \<and> (\<exists>s. heap st i = Some s \<and> unobserved s)) \<and>
     (\<forall>i v cb. (i, v, cb) \<in> set (resolving st) \<longrightarrow>
        (cb = AddItemToQueue \<or> cb = AddNextItemToQueue) \<and>
        (\<exists>s. heap st i = Some s \<and> (opened s \<or> torn_down s)))"

text \<open>\<^verbatim>\<open>Seek.handleMessage\<close> (Seek.ts): the command object's own version of the seek branch.\<close>

definition Seek_handleMessage :: "session \<Rightarrow> message \<Rightarrow> bool \<times> effect list" where
  "Seek_handleMessage s m =
     (if \<not> startsWith (content m) ''/seek'' then (False, [])
      else case seek_offset (content m) of
          None \<Rightarrow> (True, [])
        | Some n \<Rightarrow> (True, fst (snd (env_next s Seek (PNumber n)))))"

section \<open>player/Player.ts: disconnecting the player\<close>

text \<open>
  \<^verbatim>\<open>PlayerImpl.disconnect\<close>: \<^verbatim>\<open>this.player.stop()\<close>, then
  \<^verbatim>\<open>this.connection.disconnect()\<close>, for the player of session \<open>i\<close>.
\<close>

definition PlayerImpl_disconnect :: "nat \<Rightarrow> effect list" where
  "PlayerImpl_disconnect i = [AudioPlayerStop i, VoiceConnectionDisconnect i]"

text \<open>
  Modelled from the spec: the subscriber that \<^verbatim>\<open>Player.init\<close> (player.ts of
  connectionHandler.ts, not part of these sources) registers on \<^verbatim>\<open>env.disconnect\<close>.
  The spec has the \<^verbatim>\<open>/disconnect\<close> sequence stop pending playback and disconnect the
  Player before the event channels are completed; the subscriber calls the player's
  \<^verbatim>\<open>disconnect()\<close>. Emissions on the other subjects are left as they are.
\<close>

fun player_subscriber :: "effect \<Rightarrow> effect list" where
  "player_subscriber (Deliver i Disconnect v) = PlayerImpl_disconnect i"
| "player_subscriber e = [e]"

definition with_player :: "effect list \<Rightarrow> effect list" where
  "with_player es = concat (map player_subscriber es)"

section \<open>Persistence (playlist tracking, backup and restore)\<close>

text \<open>
  JSON values as \<^verbatim>\<open>JSON.parse\<close> returns them. The code of this part never computes with
  a number, which is kept as an integer (the records hold time stamps). A parsed object has
  each key once.
\<close>

datatype json =
    JNull
  | JBool bool
  | JNum int
  | JStr string
  | JArr "json list"
  | JObj "(string \<times> json) list"

datatype js_error =
    TypeError
  | SyntaxError
  | StoreError
  | UnknownObject json

text \<open>
  A stored string, up to the layout of its JSON text: either the text of a JSON value or a
  string that \<^verbatim>\<open>JSON.parse\<close> rejects.
\<close>

datatype stored = Text json | Garbage string

definition JSON_stringify :: "json \<Rightarrow> stored" where
  "JSON_stringify j = Text j"

fun JSON_parse :: "stored \<Rightarrow> js_error + json" where
  "JSON_parse (Text j) = Inr j"
| "JSON_parse (Garbage s) = Inl SyntaxError"

text \<open>
  \<^verbatim>\<open>x.p\<close> for the property names this code reads (\<^verbatim>\<open>meta\<close>, \<^verbatim>\<open>name\<close>,
  \<^verbatim>\<open>playlists\<close>), which no array and no primitive value has: \<open>None\<close> is
  \<^verbatim>\<open>undefined\<close>, and reading a property of \<^verbatim>\<open>undefined\<close> or \<^verbatim>\<open>null\<close> throws.
\<close>

fun get_prop :: "json option \<Rightarrow> string \<Rightarrow> js_error + json option" where
  "get_prop None p = Inl TypeError"
| "get_prop (Some JNull) p = Inl TypeError"
| "get_prop (Some (JObj kvs)) p = Inr (map_of kvs p)"
| "get_prop (Some v) p = Inr None"

text \<open>
  \<^verbatim>\<open>x.p = v\<close> in strict mode, as seen by a later \<^verbatim>\<open>JSON.stringify(x)\<close>: an object
  gets or replaces the key, an array keeps its elements (a named property is not
  serialised), \<^verbatim>\<open>null\<close> and the primitive values throw.
\<close>

fun set_prop :: "json \<Rightarrow> string \<Rightarrow> json \<Rightarrow> js_error + json" where
  "set_prop (JObj kvs) p v = Inr (JObj (AList.update p v kvs))"
| "set_prop (JArr xs) p v = Inr (JArr xs)"
| "set_prop x p v = Inl TypeError"

text \<open>
  \<^verbatim>\<open>[...x]\<close>: the elements of an array, the characters of a string (of ASCII text, where
  bytes and characters agree); anything else is not iterable.
\<close>

fun spread :: "json option \<Rightarrow> js_error + json list" where
  "spread (Some (JArr xs)) = Inr xs"
| "spread (Some (JStr s)) = Inr (map (\<lambda>c. JStr [c]) s)"
| "spread x = Inl TypeError"

text \<open>
  Modelled from the spec: the Store (store/Store.ts and store/impl/LevelStore.ts are not
  part of these sources), a key/value persistence abstraction with string access whose
  single-key writes are atomic, and whose operations can fail. \<open>entries\<close> holds one value
  per key; \<open>faults\<close> says, operation by operation, which of the coming operations fail
  (none once the list is used up).
\<close>

record store =
  entries :: "(string \<times> stored) list"
  faults :: "bool list"


text \<open>
  Modelled from the spec: the operations of the Store, as trackPlaylist, backupV1 and
  restoreV1 use them. Each takes the next entry of \<open>faults\<close> and fails when it says so,
  changing nothing. \<^verbatim>\<open>get\<close> emits the value of the key or nothing, \<^verbatim>\<open>put\<close> sets the
  value of the key, \<^verbatim>\<open>backup\<close> emits every key with its value.
\<close>

definition tick :: "store \<Rightarrow> bool \<times> store" where
  "tick st = (case faults st of [] \<Rightarrow> (False, st) | f # fs \<Rightarrow> (f, st\<lparr>faults := fs\<rparr>))"

definition store_get :: "store \<Rightarrow> string \<Rightarrow> (js_error + stored option) \<times> store" where
  "store_get st k =
     (let (f, st') = tick st
      in if f then (Inl StoreError, st') else (Inr (map_of (entries st') k), st'))"

definition store_put :: "store \<Rightarrow> string \<Rightarrow> stored \<Rightarrow> (js_error + unit) \<times> store" where
  "store_put st k v =
     (let (f, st') = tick st
      in if f then (Inl StoreError, st')
         else (Inr (), st'\<lparr>entries := AList.update k v (entries st')\<rparr>))"

definition store_backup :: "store \<Rightarrow> (js_error + (string \<times> stored) list) \<times> store" where
  "store_backup st =
     (let (f, st') = tick st
      in if f then (Inl StoreError, st') else (Inr (entries st'), st'))"

subsection \<open>Repository\<close>

text \<open>\<^verbatim>\<open>Repository.get\<close>: the stored text parsed, with no check of its shape.\<close>

definition repo_get :: "store \<Rightarrow> string \<Rightarrow> (js_error + json option) \<times> store" where
  "repo_get st i =
     (case store_get st i of
        (Inl e, st') \<Rightarrow> (Inl e, st')
      | (Inr None, st') \<Rightarrow> (Inr None, st')
      | (Inr (Some v), st') \<Rightarrow>
          (case JSON_parse v of Inl e \<Rightarrow> (Inl e, st') | Inr j \<Rightarrow> (Inr (Some j), st')))"

definition repo_put :: "store \<Rightarrow> string \<Rightarrow> json \<Rightarrow> (js_error + json) \<times> store" where
  "repo_put st i entity =
     (case store_put st i (JSON_stringify entity) of
        (Inl e, st') \<Rightarrow> (Inl e, st')
      | (Inr u, st') \<Rightarrow> (Inr entity, st'))"

text \<open>
  \<^verbatim>\<open>Repository.getOrCreate\<close>: the entity under the key, or, when \<^verbatim>\<open>get\<close> emits
  nothing, the default entity after it has been stored (\<^verbatim>\<open>defaultIfEmpty\<close> holds the
  observable of the put, which writes when it is subscribed to).
\<close>

definition getOrCreate :: "store \<Rightarrow> string \<Rightarrow> json \<Rightarrow> (js_error + json) \<times> store" where
  "getOrCreate st i defaultEntity =
     (case repo_get st i of
        (Inl e, st') \<Rightarrow> (Inl e, st')
      | (Inr (Some j), st') \<Rightarrow> (Inr j, st')
      | (Inr None, st') \<Rightarrow> repo_put st' i defaultEntity)"

definition meta :: "string \<Rightarrow> string \<times> json" where
  "meta n = (''meta'', JObj [(''name'', JStr n), (''version'', JStr ''1'')])"

definition channel_default :: json where
  "channel_default = JObj [meta ''channel'', (''playlists'', JArr [])]"

definition playlist_default :: "int \<Rightarrow> json" where
  "playlist_default timestamp =
     JObj [meta ''playlist'', (''date'', JNum timestamp), (''tracks'', JArr [])]"

record track =
  author_id :: string
  author_username :: string
  track_name :: string
  track_link :: string

definition trackToTrackV1 :: "track \<Rightarrow> json" where
  "trackToTrackV1 t =
     JObj [meta ''track'',
           (''author'', JObj [meta ''author'', (''id'', JStr (author_id t)),
                              (''username'', JStr (author_username t))]),
           (''name'', JStr (track_name t)),
           (''link'', JStr (track_link t))]"

subsection \<open>trackPlaylist\<close>

text \<open>
  What trackPlaylist reads of its event: \<^verbatim>\<open>message.channelId\<close>, the identifier that
  \<^verbatim>\<open>factory.uuid()\<close> returns for this playlist, and \<^verbatim>\<open>timestamp\<close>.
\<close>

record jevent =
  channelId :: string
  uuid :: string
  timestamp :: int

text \<open>
  An observable run to its end: the values it emitted, then completion or an error.
\<close>

datatype 'a outcome = Completes "'a list" | Fails "'a list" js_error

fun emit_first :: "'a \<Rightarrow> 'a outcome \<Rightarrow> 'a outcome" where
  "emit_first x (Completes xs) = Completes (x # xs)"
| "emit_first x (Fails xs e) = Fails (x # xs) e"

fun map_outcome :: "('a \<Rightarrow> 'b) \<Rightarrow> 'a outcome \<Rightarrow> 'b outcome" where
  "map_outcome f (Completes xs) = Completes (map f xs)"
| "map_outcome f (Fails xs e) = Fails (map f xs) e"

text \<open>\<^verbatim>\<open>catchError(h)\<close>: an error is replaced by what the handler's observable does.\<close>

fun catchError :: "(js_error \<Rightarrow> 'a outcome) \<Rightarrow> 'a outcome \<Rightarrow> 'a outcome" where
  "catchError h (Completes xs) = Completes xs"
| "catchError h (Fails xs e) =
     (case h e of Completes ys \<Rightarrow> Completes (xs @ ys) | Fails ys e' \<Rightarrow> Fails (xs @ ys) e')"

text \<open>
  \<^verbatim>\<open>createPlaylist\<close> (lines 17 to 22): the channel's record, created when missing, gets
  the new playlist id at the end of its list and is stored again.
\<close>

definition createPlaylist :: "jevent \<Rightarrow> store \<Rightarrow> (js_error + json) \<times> store" where
  "createPlaylist ev st =
     (case getOrCreate st (channelId ev) channel_default of
        (Inl e, st1) \<Rightarrow> (Inl e, st1)
      | (Inr channel, st1) \<Rightarrow>
          (case get_prop (Some channel) ''playlists'' of
             Inl e \<Rightarrow> (Inl e, st1)
           | Inr old \<Rightarrow>
               (case spread old of
                  Inl e \<Rightarrow> (Inl e, st1)
                | Inr ps \<Rightarrow>
                    (case set_prop channel ''playlists'' (JArr (ps @ [JStr (uuid ev)])) of
                       Inl e \<Rightarrow> (Inl e, st1)
                     | Inr channel' \<Rightarrow> repo_put st1 (channelId ev) channel'))))"

text \<open>
  One emission of \<^verbatim>\<open>internalCurrentQueue\<close> (lines 27 to 34): the playlist's record,
  created when missing, gets the whole queue as its tracks and is stored again.
\<close>

definition snapshot :: "jevent \<Rightarrow> track list \<Rightarrow> store \<Rightarrow> (js_error + json) \<times> store" where
  "snapshot ev currentQueue st =
     (case getOrCreate st (uuid ev) (playlist_default (timestamp ev)) of
        (Inl e, st1) \<Rightarrow> (Inl e, st1)
      | (Inr queue, st1) \<Rightarrow>
          (case set_prop queue ''tracks'' (JArr (map trackToTrackV1 currentQueue)) of
             Inl e \<Rightarrow> (Inl e, st1)
           | Inr queue' \<Rightarrow> repo_put st1 (uuid ev) queue'))"

text \<open>The emissions of the queue, one after the other; an error ends the stream.\<close>

fun snapshots :: "jevent \<Rightarrow> track list list \<Rightarrow> store \<Rightarrow> json outcome \<times> store" where
  "snapshots ev [] st = (Completes [], st)"
| "snapshots ev (q # qs) st =
     (case snapshot ev q st of
        (Inl e, st1) \<Rightarrow> (Fails [] e, st1)
      | (Inr j, st1) \<Rightarrow> (let (out, st2) = snapshots ev qs st1 in (emit_first j out, st2)))"

text \<open>
  \<^verbatim>\<open>concat(createPlaylist, ...)\<close> inside the \<^verbatim>\<open>mergeMap\<close> over the store: taking the
  store can fail; the queue is listened to once the channel's record is written.
\<close>

definition tracking :: "jevent \<Rightarrow> track list list \<Rightarrow> store \<Rightarrow> json outcome \<times> store" where
  "tracking ev qs st =
     (let (f, st0) = tick st in
      if f then (Fails [] StoreError, st0)
      else case createPlaylist ev st0 of
          (Inl e, st1) \<Rightarrow> (Fails [] e, st1)
        | (Inr c, st1) \<Rightarrow> (let (out, st2) = snapshots ev qs st1 in (emit_first c out, st2)))"

text \<open>
  The results the stream emits: the tracking event with the record written
  (\<^verbatim>\<open>complexResult\<close>), and whatever \<^verbatim>\<open>errorHandler\<close> emits for a caught error.
\<close>

datatype 'r tracking_result = TrackingEvent json | Handled 'r

text \<open>
  \<^verbatim>\<open>trackPlaylist\<close> over the emissions \<open>qs\<close> of the playlist's queue. \<open>errorHandler\<close>
  (errorHandler.ts is not part of these sources) is a parameter: the observable it returns
  for an error.
\<close>

definition trackPlaylist ::
  "(js_error \<Rightarrow> 'r outcome) \<Rightarrow> jevent \<Rightarrow> track list list \<Rightarrow> store \<Rightarrow> 'r tracking_result outcome \<times> store" where
  "trackPlaylist errorHandler ev qs st =
     (let (out, st') = tracking ev qs st
      in (catchError (\<lambda>err. map_outcome Handled (errorHandler err)) (map_outcome TrackingEvent out),
          st'))"

subsection \<open>Backup and restore\<close>

text \<open>\<^verbatim>\<open>BackupV1\<close>: keys with their channel records, keys with their playlist records.\<close>

record backup =
  channels :: "(string \<times> json) list"
  playlists :: "(string \<times> json) list"

text \<open>\<^verbatim>\<open>item.meta.name === tag\<close> (isChannel, isPlaylist).\<close>

definition has_tag :: "json \<Rightarrow> string \<Rightarrow> js_error + bool" where
  "has_tag item tag =
     (case get_prop (Some item) ''meta'' of
        Inl e \<Rightarrow> Inl e
      | Inr m \<Rightarrow>
          (case get_prop m ''name'' of
             Inl e \<Rightarrow> Inl e
           | Inr n \<Rightarrow> Inr (n = Some (JStr tag))))"

definition isChannel :: "json \<Rightarrow> js_error + bool" where
  "isChannel item = has_tag item ''channel''"

definition isPlaylist :: "json \<Rightarrow> js_error + bool" where
  "isPlaylist item = has_tag item ''playlist''"

text \<open>
  One call of the \<^verbatim>\<open>next\<close> callback of backupV1 (lines 136 to 151): the record is parsed
  and pushed to the channels or to the playlists; a text that does not parse, a record
  without \<^verbatim>\<open>meta\<close> and a record with another tag throw.
\<close>

definition backup_next :: "string \<Rightarrow> stored \<Rightarrow> backup \<Rightarrow> js_error + backup" where
  "backup_next key v b =
     (case JSON_parse v of
        Inl e \<Rightarrow> Inl e
      | Inr item \<Rightarrow>
          (case isChannel item of
             Inl e \<Rightarrow> Inl e
           | Inr True \<Rightarrow> Inr (b\<lparr>channels := channels b @ [(key, item)]\<rparr>)
           | Inr False \<Rightarrow>
               (case isPlaylist item of
                  Inl e \<Rightarrow> Inl e
                | Inr True \<Rightarrow> Inr (b\<lparr>playlists := playlists b @ [(key, item)]\<rparr>)
                | Inr False \<Rightarrow> Inl (UnknownObject item))))"

text \<open>
  The subscriber of backupV1 over the records that \<^verbatim>\<open>store.backup()\<close> emits. What the
  \<^verbatim>\<open>next\<close> callback of a subscriber throws does not reach the stream: rxjs (from 7.0 on;
  this file imports its operators from \<^verbatim>\<open>'rxjs'\<close>, which 7.2 introduced) catches it,
  rethrows it from a timer callback, where nothing of backupV1 can catch it, and hands the
  next record to the callback. The scan gives the payload and the errors thrown that way.
\<close>

fun backup_scan ::
  "(string \<times> stored) list \<Rightarrow> backup \<Rightarrow> js_error list \<Rightarrow> backup \<times> js_error list" where
  "backup_scan [] b errs = (b, errs)"
| "backup_scan ((key, v) # rest) b errs =
     (case backup_next key v b of
        Inl e \<Rightarrow> backup_scan rest b (errs @ [e])
      | Inr b' \<Rightarrow> backup_scan rest b' errs)"

text \<open>
  backupV1 (lines 127 to 156). The promise has no way to reject: it resolves with the
  payload when the stream completes (\<open>Some\<close>), and stays pending (\<open>None\<close>) when the
  stream ends with an error of the store, which the subscriber has no callback for and
  rxjs rethrows like the errors of the \<^verbatim>\<open>next\<close> callback. The second component holds
  the errors rethrown outside the promise.
\<close>

definition backupV1 :: "store \<Rightarrow> (backup option \<times> js_error list) \<times> store" where
  "backupV1 st =
     (case store_backup st of
        (Inl e, st') \<Rightarrow> ((None, [e]), st')
      | (Inr kvs, st') \<Rightarrow>
          (let (b, errs) = backup_scan kvs \<lparr>channels = [], playlists = []\<rparr> []
           in ((Some b, errs), st')))"



section \<open>Notions used to state the persistence properties\<close>




text \<open>The playlist record that holds the queue \<open>q\<close>.\<close>

definition snapshot_record :: "jevent \<Rightarrow> track list \<Rightarrow> json" where
  "snapshot_record ev q =
     JObj [meta ''playlist'', (''date'', JNum (timestamp ev)),
           (''tracks'', JArr (map trackToTrackV1 q))]"

text \<open>
  The channel record trackPlaylist starts from: the stored one, or the default one when the
  key is absent; none when the stored text does not parse.
\<close>

definition channel_before :: "store \<Rightarrow> string \<Rightarrow> json option" where
  "channel_before st cid =
     (case map_of (entries st) cid of
        None \<Rightarrow> Some channel_default
      | Some (Text j) \<Rightarrow> Some j
      | Some (Garbage g) \<Rightarrow> None)"

text \<open>
  The channel record with the fields \<open>kvs\<close> and the playlists \<open>ps\<close> after the playlist id
  \<open>u\<close> has been put at the end of its playlists.
\<close>

definition channel_with :: "(string \<times> json) list \<Rightarrow> json list \<Rightarrow> string \<Rightarrow> json" where
  "channel_with kvs ps u = JObj (AList.update ''playlists'' (JArr (ps @ [JStr u])) kvs)"

section \<open>Kinds of effects\<close>

text \<open>
  The effects that only the creation of a session produces, and the ones that stand for a
  failed lookup of the registered subject and for a rejection that nothing handles.
\<close>

fun creation_or_fault :: "effect \<Rightarrow> bool" where
  "creation_or_fault (LogInfo t) = True"
| "creation_or_fault (PlaylistInit i) = True"
| "creation_or_fault (PlayerInit i) = True"
| "creation_or_fault UncaughtTypeError = True"
| "creation_or_fault UnhandledRejection = True"
| "creation_or_fault e = False"

section \<open>Sample inputs\<close>

definition msg0 :: message where
  "msg0 = \<lparr>author_bot = False, content = ''/play x'', voice_channel = Some ''vc'', text_channel = ''tc''\<rparr>"

definition play_msg :: msg_event where
  "play_msg = \<lparr>msg = msg0, pool = 0\<rparr>"

definition disconnect_msg :: msg_event where
  "disconnect_msg = \<lparr>msg = msg0\<lparr>content := ''/disconnect''\<rparr>, pool = 0\<rparr>"

definition song :: item where
  "song = \<lparr>item_name = ''song'', item_link = ''link''\<rparr>"

text \<open>
  The state after one \<^verbatim>\<open>/play\<close> in voice channel \<open>vc\<close>, when the player has been
  initialised and the resolver has answered.
\<close>

definition one_session :: bot_state where
  "one_session =
     \<lparr>msgObservers = [''vc'' \<mapsto> 0], heap = [0 \<mapsto> initialised (new_session 0 ''vc'' msg0)],
      next_id = 1, initialising = [], resolving = []\<rparr>"

text \<open>The same state while the resolver has not answered yet.\<close>

definition one_session_resolving :: bot_state where
  "one_session_resolving = one_session\<lparr>resolving := [(0, play_msg, AddItemToQueue)]\<rparr>"

definition third_msg :: msg_event where
  "third_msg = \<lparr>msg = msg0\<lparr>voice_channel := Some ''vc3''\<rparr>, pool = 0\<rparr>"

definition other_msg :: msg_event where
  "other_msg = \<lparr>msg = msg0\<lparr>voice_channel := Some ''vc2''\<rparr>, pool = 0\<rparr>"

definition no_voice_msg :: msg_event where
  "no_voice_msg = \<lparr>msg = msg0\<lparr>voice_channel := None\<rparr>, pool = 0\<rparr>"



definition sample_channel :: json where
  "sample_channel = JObj [meta ''channel'', (''playlists'', JArr [JStr ''u1''])]"

definition sample_playlist :: json where
  "sample_playlist = JObj [meta ''playlist'', (''date'', JNum 5), (''tracks'', JArr [])]"

definition sample_store :: store where
  "sample_store = \<lparr>entries = [(''c1'', Text sample_channel), (''u1'', Text sample_playlist)], faults = []\<rparr>"


definition unknown_store :: store where
  "unknown_store = \<lparr>entries = [(''c1'', Text sample_channel), (''t1'', Text (JObj [meta ''track'']))],
                     faults = []\<rparr>"


definition sample_event :: jevent where
  "sample_event = \<lparr>channelId = ''c1'', uuid = ''u2'', timestamp = 7\<rparr>"

definition sample_track :: track where
  "sample_track = \<lparr>author_id = ''a1'', author_username = ''ann'', track_name = ''song'',
                    track_link = ''link''\<rparr>"

definition failing_store :: store where
  "failing_store = \<lparr>entries = [(''c1'', Text sample_channel)], faults = [False, False, True]\<rparr>"

definition report_error :: "js_error \<Rightarrow> js_error outcome" where
  "report_error e = Completes [e]"

definition flaky_store :: store where
  "flaky_store = \<lparr>entries = [(''c1'', Text sample_channel)], faults = [False, False, False, True]\<rparr>"

definition bare_channel_store :: store where
  "bare_channel_store = \<lparr>entries = [(''c1'', Text (JObj [meta ''channel'']))], faults = []\<rparr>"

text \<open>
  The store of \<open>sample_store\<close> when its seventh operation fails: while the second emission
  of the queue is handled.
\<close>

definition late_fault_store :: store where
  "late_fault_store =
     \<lparr>entries = [(''c1'', Text sample_channel), (''u1'', Text sample_playlist)],
      faults = [False, False, False, False, False, False, True]\<rparr>"

section \<open>Facts about splitting and the seek argument\<close>

lemma split_from_no_sep:
  "sep \<noteq> [] \<Longrightarrow> hd sep \<notin> set s \<Longrightarrow> split_from sep acc s = [acc @ s]"
proof (induction s arbitrary: acc)
  case Nil
  then show ?case by simp
next
  case (Cons c cs)
  from Cons.prems have "\<not> prefix sep (c # cs)"
    by (cases sep) auto
  with Cons show ?case by simp
qed

lemma split_from_at_sep:
  "sep \<noteq> [] \<Longrightarrow> hd sep \<notin> set a \<Longrightarrow>
   split_from sep acc (a @ sep @ rest) = (acc @ a) # split_from sep [] rest"
proof (induction a arbitrary: acc)
  case Nil
  then show ?case by (cases sep) auto
next
  case (Cons c cs)
  from Cons.prems have "\<not> prefix sep (c # cs @ sep @ rest)"
    by (cases sep) auto
  with Cons show ?case by simp
qed

lemma digit_not_colon: "list_all is_digit s \<Longrightarrow> CHR '':'' \<notin> set s"
  by (auto simp: list_all_iff is_digit_def)

lemma digit_not_slash: "list_all is_digit s \<Longrightarrow> CHR ''/'' \<notin> set s"
  by (auto simp: list_all_iff is_digit_def)

lemma split_seek_prefix:
  "CHR ''/'' \<notin> set arg \<Longrightarrow> split (''/seek '' @ arg) ''/seek '' = [[], arg]"
  using split_from_at_sep [of "''/seek ''" "[]" "[]" arg] split_from_no_sep [of "''/seek ''" arg "[]"]
  by (simp add: split_def)

lemma split_colon_two:
  "list_all is_digit m \<Longrightarrow> list_all is_digit s \<Longrightarrow> split (m @ CHR '':'' # s) '':'' = [m, s]"
  using split_from_at_sep [of "'':''" m "[]" s] split_from_no_sep [of "'':''" s "[]"]
  by (simp add: split_def digit_not_colon)

lemma split_colon_one:
  "list_all is_digit n \<Longrightarrow> split n '':'' = [n]"
  using split_from_no_sep [of "'':''" n "[]"]
  by (simp add: split_def digit_not_colon)

lemma seek_offset_minutes_seconds:
  assumes "m \<noteq> []" "list_all is_digit m" "s \<noteq> []" "list_all is_digit s"
    and "int (decimal_value m) * 60 + int (decimal_value s) \<le> max_exact"
  shows "seek_offset (''/seek '' @ m @ '':'' @ s) =
           Some (Exact (int (decimal_value m) * 60 + int (decimal_value s)))"
proof -
  have slash: "CHR ''/'' \<notin> set (m @ '':'' @ s)"
    using assms by (simp add: digit_not_slash)
  have a: "int (decimal_value m) \<le> max_exact" "int (decimal_value s) \<le> max_exact"
    "\<bar>int (decimal_value m) * 60\<bar> \<le> max_exact"
    "\<bar>int (decimal_value m) * 60 + int (decimal_value s)\<bar> \<le> max_exact"
    using assms(5) by auto
  show ?thesis
    unfolding seek_offset_def split_seek_prefix [OF slash]
    using assms(1-4) a
    by (simp add: split_colon_two Number_js_def)
qed

lemma seek_offset_plain:
  assumes "n \<noteq> []" "list_all is_digit n" "int (decimal_value n) \<le> max_exact"
  shows "seek_offset (''/seek '' @ n) = Some (Exact (int (decimal_value n)))"
proof -
  have slash: "CHR ''/'' \<notin> set n"
    using assms by (simp add: digit_not_slash)
  show ?thesis
    unfolding seek_offset_def split_seek_prefix [OF slash]
    using assms
    by (simp add: split_colon_one Number_js_def)
qed

lemma observer_next_seek:
  "opened s \<Longrightarrow> seek_offset (''/seek '' @ arg) = Some n \<Longrightarrow>
   observer_next s \<lparr>msg = mm\<lparr>content := ''/seek '' @ arg\<rparr>, pool = p\<rparr> =
     (s, [Deliver (sid s) Seek (PNumber n)], False, None)"
  by (simp add: observer_next_def startsWith_def opened_def env_next_def at_once_def)

lemma Seek_handleMessage_seek:
  "opened s \<Longrightarrow> seek_offset (''/seek '' @ arg) = Some n \<Longrightarrow>
   Seek_handleMessage s (mm\<lparr>content := ''/seek '' @ arg\<rparr>) =
     (True, [Deliver (sid s) Seek (PNumber n)])"
  by (simp add: Seek_handleMessage_def startsWith_def opened_def env_next_def)

section \<open>Facts about sessions\<close>

lemma UNIV_subjects: "(UNIV :: subject set) = set env_subjects"
proof -
  have "x \<in> set env_subjects" for x :: subject
    by (cases x) (simp_all add: env_subjects_def)
  then show ?thesis by blast
qed

lemma complete_all_fresh:
  "complete_all i {} env_subjects = (UNIV, map (Completed i) env_subjects)"
  unfolding UNIV_subjects by (auto simp add: env_subjects_def)

lemma teardown_opened:
  "opened s \<Longrightarrow>
   teardown s =
     (s\<lparr>completed := UNIV, observer_subscribed := False, channel_completed := True\<rparr>,
      teardown_effects s, True)"
  by (simp add: teardown_def opened_def complete_all_fresh send_message_def teardown_effects_def)

lemma opened_player_disconnected: "opened s \<Longrightarrow> opened (player_disconnected s)"
  by (simp add: opened_def player_disconnected_def)

lemma teardown_effects_player_disconnected:
  "teardown_effects (player_disconnected s) = teardown_effects s"
  by (simp add: teardown_effects_def player_disconnected_def)

lemma env_next_keeps:
  "subj \<noteq> Disconnect \<Longrightarrow> \<exists>es. env_next s subj v = (s, es, False)"
  by (cases subj; cases v) (simp_all add: env_next_def)

lemma addItemToQueue_keeps:
  "cb \<noteq> Disconnect \<Longrightarrow> \<exists>es. addItemToQueue r s v cb = (s, es, False)"
  using env_next_keeps [of cb s]
  by (cases r) (simp_all add: addItemToQueue_def)

lemma disconnect_no_prefix:
  "\<not> startsWith ''/disconnect'' ''/playnext''" "\<not> startsWith ''/disconnect'' ''/play''"
  "\<not> startsWith ''/disconnect'' ''/seek''" "\<not> startsWith ''/disconnect'' ''/bass''"
  "\<not> startsWith ''/disconnect'' ''/remove''"
  by (simp_all add: startsWith_def)

lemma at_once_keeps:
  "\<exists>es. r = (s, es, False) \<Longrightarrow> \<exists>es. at_once r = (s, es, False, None)"
  by (auto simp: at_once_def)

lemma observer_next_other:
  assumes "opened s" "content (msg v) \<noteq> ''/disconnect''"
  shows "\<exists>es started. observer_next s v = (s, es, False, started)
           \<and> (started = None \<or> started = Some AddItemToQueue \<or> started = Some AddNextItemToQueue)"
proof -
  have e: "subj \<noteq> Disconnect \<Longrightarrow>
      \<exists>es started. at_once (env_next s subj p) = (s, es, False, started)
         \<and> (started = None \<or> started = Some AddItemToQueue \<or> started = Some AddNextItemToQueue)"
    for subj p
    using at_once_keeps [OF env_next_keeps, of subj s p] by auto
  have o: "\<not> channel_completed s" "observer_subscribed s"
    using assms(1) by (simp_all add: opened_def)
  show ?thesis
    unfolding observer_next_def Let_def
    using assms(2) o e
    by (simp split: option.split)
qed

lemma observer_next_disconnect:
  assumes "opened s" "content (msg v) = ''/disconnect''"
  shows "observer_next s v =
     ((player_disconnected s)\<lparr>completed := UNIV, observer_subscribed := False,
                               channel_completed := True\<rparr>,
      Deliver (sid s) Disconnect PNull # teardown_effects s, True, None)"
proof -
  have o: "\<not> channel_completed s" "observer_subscribed s" "Disconnect \<notin> completed s"
    using assms(1) by (simp_all add: opened_def)
  show ?thesis
    unfolding observer_next_def Let_def
    using assms(2) o
    by (simp add: disconnect_no_prefix env_next_def at_once_def
        teardown_opened [OF opened_player_disconnected [OF assms(1)]]
        teardown_effects_player_disconnected)
qed

lemma torn_down_silent:
  assumes "torn_down s"
  shows "observer_next s v = (s, [], False, None)" "env_next s subj p = (s, [], False)"
  using assms by (simp_all add: observer_next_def env_next_def torn_down_def)

lemma unobserved_silent:
  "\<not> observer_subscribed s \<Longrightarrow> observer_next s v = (s, [], False, None)"
  by (simp add: observer_next_def)

lemma opened_not_torn_down: "opened s \<Longrightarrow> \<not> torn_down s"
  by (auto simp: opened_def torn_down_def)


lemma unobserved_not_opened: "unobserved s \<Longrightarrow> \<not> opened s"
  by (auto simp: unobserved_def opened_def)

lemma unobserved_new_session: "unobserved (new_session i ch m)"
  by (simp add: unobserved_def new_session_def)

lemma opened_initialised: "unobserved s \<Longrightarrow> opened (initialised s)"
  by (simp add: unobserved_def opened_def initialised_def)

lemma torn_down_after:
  "torn_down ((player_disconnected s)\<lparr>completed := UNIV, observer_subscribed := False,
                                       channel_completed := True\<rparr>)"
  "\<not> player_connected ((player_disconnected s)\<lparr>completed := UNIV, observer_subscribed := False,
                                       channel_completed := True\<rparr>)"
  "chan ((player_disconnected s)\<lparr>completed := UNIV, observer_subscribed := False,
                                       channel_completed := True\<rparr>) = chan s"
  "sid ((player_disconnected s)\<lparr>completed := UNIV, observer_subscribed := False,
                                       channel_completed := True\<rparr>) = sid s"
  by (simp_all add: torn_down_def player_disconnected_def)

lemma nth_opt_Some: "nth_opt xs n = Some x \<Longrightarrow> x \<in> set xs"
proof (induction xs arbitrary: n)
  case Nil
  then show ?case by simp
next
  case (Cons y ys)
  then show ?case by (cases n) auto
qed

section \<open>The registry invariant\<close>

lemma registry_inv_init: "registry_inv init_state"
  by (simp add: registry_inv_def init_state_def)

lemma registry_invD:
  assumes "registry_inv st"
  shows "msgObservers st ch = Some i \<Longrightarrow>
           \<exists>s. heap st i = Some s \<and> chan s = ch \<and> (opened s \<or> unobserved s)"
    and "heap st i = Some s \<Longrightarrow>
           i < next_id st \<and> sid s = i \<and>
           (if msgObservers st (chan s) = Some i then opened s \<or> unobserved s else torn_down s) \<and>
           (player_connected s \<longleftrightarrow> opened s)"
    and "map_of (initialising st) i = Some (ch, v) \<Longrightarrow>
           msgObservers st ch = Some i \<and> (\<exists>s. heap st i = Some s \<and> unobserved s)"
    and "(i, v, cb) \<in> set (resolving st) \<Longrightarrow>
           (cb = AddItemToQueue \<or> cb = AddNextItemToQueue) \<and>
           (\<exists>s. heap st i = Some s \<and> (opened s \<or> torn_down s))"
  using assms unfolding registry_inv_def by blast+

lemma registry_inv_resolving:
  assumes "registry_inv st"
    and "\<forall>i v cb. (i, v, cb) \<in> set xs \<longrightarrow>
           (cb = AddItemToQueue \<or> cb = AddNextItemToQueue) \<and>
           (\<exists>s. heap st i = Some s \<and> (opened s \<or> torn_down s))"
  shows "registry_inv (st\<lparr>resolving := xs\<rparr>)"
  using assms unfolding registry_inv_def by simp

lemma fresh_id:
  assumes "registry_inv st"
  shows "heap st (next_id st) = None" "map_of (initialising st) (next_id st) = None"
proof -
  show h: "heap st (next_id st) = None"
  proof (cases "heap st (next_id st)")
    case (Some u)
    with registry_invD(2) [OF assms, of "next_id st" u] show ?thesis by simp
  qed simp
  show "map_of (initialising st) (next_id st) = None"
  proof (cases "map_of (initialising st) (next_id st)")
    case (Some cv)
    obtain c v where "cv = (c, v)" by (cases cv)
    with Some registry_invD(3) [OF assms, of "next_id st" c v] h show ?thesis by auto
  qed simp
qed

lemma create_session_inv:
  assumes "registry_inv st" "msgObservers st ch = None"
  shows "registry_inv (fst (create_session st ch v))"
proof -
  let ?i = "next_id st"
  define st' where "st' = fst (create_session st ch v)"
  have f: "msgObservers st' = (msgObservers st)(ch \<mapsto> ?i)"
    "heap st' = (heap st)(?i \<mapsto> new_session ?i ch (msg v))"
    "next_id st' = Suc ?i"
    "initialising st' = initialising st @ [(?i, ch, v)]"
    "resolving st' = resolving st"
    by (simp_all add: st'_def create_session_def Let_def)
  note fr = fresh_id [OF assms(1)]
  have pend: "map_of (initialising st') j =
      (if j = ?i then Some (ch, v) else map_of (initialising st) j)" for j
    using fr(2) by (auto simp: f(4) map_add_def split: option.splits)
  have "registry_inv st'"
    unfolding registry_inv_def
  proof (intro conjI allI impI)
    fix c i
    assume r: "msgObservers st' c = Some i"
    show "\<exists>s. heap st' i = Some s \<and> chan s = c \<and> (opened s \<or> unobserved s)"
    proof (cases "c = ch")
      case True
      with r show ?thesis
        by (simp add: f new_session_def unobserved_def)
    next
      case False
      with r have m: "msgObservers st c = Some i" by (simp add: f)
      from registry_invD(1) [OF assms(1) m] obtain s
        where s: "heap st i = Some s" "chan s = c" "opened s \<or> unobserved s" by blast
      with fr(1) have "i \<noteq> ?i" by auto
      with s show ?thesis by (simp add: f)
    qed
  next
    fix i s
    assume h: "heap st' i = Some s"
    show "i < next_id st'"
      using h registry_invD(2) [OF assms(1), of i s]
      by (cases "i = ?i") (simp_all add: f)
    show "sid s = i"
      using h registry_invD(2) [OF assms(1), of i s]
      by (cases "i = ?i") (auto simp: f new_session_def)
    show "if msgObservers st' (chan s) = Some i then opened s \<or> unobserved s else torn_down s"
    proof (cases "i = ?i")
      case True
      with h show ?thesis
        by (auto simp: f new_session_def unobserved_def)
    next
      case False
      with h have old: "heap st i = Some s" by (simp add: f)
      note o = registry_invD(2) [OF assms(1) old]
      show ?thesis
      proof (cases "chan s = ch")
        case True
        with o assms(2) have "torn_down s" by simp
        with True False show ?thesis by (simp add: f)
      next
        case c: False
        with o show ?thesis by (simp add: f)
      qed
    qed
    show "player_connected s \<longleftrightarrow> opened s"
      using h registry_invD(2) [OF assms(1), of i s] unobserved_not_opened [OF unobserved_new_session]
      by (cases "i = ?i") (auto simp: f new_session_def)
  next
    fix i c w
    assume p: "map_of (initialising st') i = Some (c, w)"
    show "msgObservers st' c = Some i"
    proof (cases "i = ?i")
      case True
      with p have "c = ch" by (simp add: pend)
      with True show ?thesis by (simp add: f(1))
    next
      case False
      with p have "map_of (initialising st) i = Some (c, w)" by (simp add: pend)
      from registry_invD(3) [OF assms(1) this] assms(2) show ?thesis
        by (auto simp: f)
    qed
    show "\<exists>s. heap st' i = Some s \<and> unobserved s"
    proof (cases "i = ?i")
      case True
      then show ?thesis by (simp add: f unobserved_new_session)
    next
      case False
      with p have "map_of (initialising st) i = Some (c, w)" by (simp add: pend)
      from registry_invD(3) [OF assms(1) this] False show ?thesis
        by (auto simp: f)
    qed
  next
    fix i w cb
    assume "(i, w, cb) \<in> set (resolving st')"
    then have w: "(cb = AddItemToQueue \<or> cb = AddNextItemToQueue) \<and>
           (\<exists>s. heap st i = Some s \<and> (opened s \<or> torn_down s))"
      using registry_invD(4) [OF assms(1), of i w cb] by (simp add: f)
    then show "cb = AddItemToQueue \<or> cb = AddNextItemToQueue" by simp
    from w fr(1) have "i \<noteq> ?i" by auto
    with w show "\<exists>s. heap st' i = Some s \<and> (opened s \<or> torn_down s)" by (simp add: f)
  qed
  then show ?thesis by (simp add: st'_def)
qed

lemma teardown_inv:
  assumes "registry_inv st" "msgObservers st ch = Some i" "heap st i = Some s" "opened s"
  shows "registry_inv
     (st\<lparr>heap := (heap st)(i \<mapsto> (player_disconnected s)\<lparr>completed := UNIV,
              observer_subscribed := False, channel_completed := True\<rparr>),
         msgObservers := (msgObservers st)(chan s := None)\<rparr>)"
proof -
  let ?t = "(player_disconnected s)\<lparr>completed := UNIV, observer_subscribed := False,
              channel_completed := True\<rparr>"
  define st' where "st' = st\<lparr>heap := (heap st)(i \<mapsto> ?t),
                                msgObservers := (msgObservers st)(chan s := None)\<rparr>"
  from registry_invD(1) [OF assms(1,2)] assms(3) have cs: "chan s = ch" by auto
  have f: "heap st' = (heap st)(i \<mapsto> ?t)" "msgObservers st' = (msgObservers st)(ch := None)"
    "next_id st' = next_id st" "initialising st' = initialising st" "resolving st' = resolving st"
    by (simp_all add: st'_def cs)
  note t = torn_down_after [of s]
  have "registry_inv st'"
    unfolding registry_inv_def
  proof (intro conjI allI impI)
    fix c j
    assume r: "msgObservers st' c = Some j"
    then have c: "c \<noteq> ch" and m: "msgObservers st c = Some j"
      by (auto simp: f split: if_splits)
    from registry_invD(1) [OF assms(1) m] obtain u
      where u: "heap st j = Some u" "chan u = c" "opened u \<or> unobserved u" by blast
    with c cs assms(3) have "j \<noteq> i" by auto
    with u show "\<exists>s. heap st' j = Some s \<and> chan s = c \<and> (opened s \<or> unobserved s)"
      by (simp add: f)
  next
    fix j u
    assume h: "heap st' j = Some u"
    show "j < next_id st'"
      using h registry_invD(2) [OF assms(1), of j u] registry_invD(2) [OF assms(1,3)]
      by (cases "j = i") (simp_all add: f)
    show "sid u = j"
      using h registry_invD(2) [OF assms(1), of j u] registry_invD(2) [OF assms(1,3)] t(4)
      by (cases "j = i") (auto simp: f)
    show "if msgObservers st' (chan u) = Some j then opened u \<or> unobserved u else torn_down u"
    proof (cases "j = i")
      case True
      with h have "u = ?t" by (simp add: f)
      with t(1,3) cs show ?thesis by (simp add: f)
    next
      case False
      with h have old: "heap st j = Some u" by (simp add: f)
      note o = registry_invD(2) [OF assms(1) old]
      show ?thesis
      proof (cases "chan u = ch")
        case True
        with o assms(2) False have "torn_down u" by simp
        with True show ?thesis by (simp add: f)
      next
        case c: False
        with o show ?thesis by (simp add: f)
      qed
    qed
    show "player_connected u \<longleftrightarrow> opened u"
      using h registry_invD(2) [OF assms(1), of j u] t(1,2) opened_not_torn_down [of ?t]
      by (cases "j = i") (auto simp: f)
  next
    fix j c w
    assume p: "map_of (initialising st') j = Some (c, w)"
    then have p0: "map_of (initialising st) j = Some (c, w)" by (simp add: f)
    from registry_invD(3) [OF assms(1) p0] obtain u
      where u: "msgObservers st c = Some j" "heap st j = Some u" "unobserved u" by blast
    have ji: "j \<noteq> i"
      using u(2,3) assms(3,4) unobserved_not_opened by auto
    have "c \<noteq> ch" using u(1) assms(2) ji by auto
    with u(1) show "msgObservers st' c = Some j" by (simp add: f)
    from u ji show "\<exists>s. heap st' j = Some s \<and> unobserved s" by (simp add: f)
  next
    fix j w cb
    assume "(j, w, cb) \<in> set (resolving st')"
    then have w: "(cb = AddItemToQueue \<or> cb = AddNextItemToQueue) \<and>
           (\<exists>s. heap st j = Some s \<and> (opened s \<or> torn_down s))"
      using registry_invD(4) [OF assms(1), of j w cb] by (simp add: f)
    then show "cb = AddItemToQueue \<or> cb = AddNextItemToQueue" by simp
    from w t(1) show "\<exists>s. heap st' j = Some s \<and> (opened s \<or> torn_down s)"
      by (cases "j = i") (auto simp: f)
  qed
  then show ?thesis by (simp add: st'_def)
qed

lemma initialise_inv:
  assumes "registry_inv st" "map_of (initialising st) i = Some (ch, v)" "heap st i = Some s"
  shows "registry_inv
     (st\<lparr>initialising := AList.delete i (initialising st),
         heap := (heap st)(i \<mapsto> initialised s)\<rparr>)"
proof -
  define st' where "st' = st\<lparr>initialising := AList.delete i (initialising st),
                                heap := (heap st)(i \<mapsto> initialised s)\<rparr>"
  from registry_invD(3) [OF assms(1,2)] assms(3)
  have r: "msgObservers st ch = Some i" and un: "unobserved s" by auto
  from registry_invD(1) [OF assms(1) r] assms(3) have cs: "chan s = ch" by auto
  have f: "heap st' = (heap st)(i \<mapsto> initialised s)" "msgObservers st' = msgObservers st"
    "next_id st' = next_id st" "resolving st' = resolving st"
    "map_of (initialising st') = (map_of (initialising st))(i := None)"
    by (simp_all add: st'_def delete_conv')
  have t: "opened (initialised s)" "chan (initialised s) = chan s" "sid (initialised s) = sid s"
    using opened_initialised [OF un] by (simp_all add: initialised_def)
  have "registry_inv st'"
    unfolding registry_inv_def
  proof (intro conjI allI impI)
    fix c j
    assume m: "msgObservers st' c = Some j"
    then have m0: "msgObservers st c = Some j" by (simp add: f)
    from registry_invD(1) [OF assms(1) m0] obtain u
      where u: "heap st j = Some u" "chan u = c" "opened u \<or> unobserved u" by blast
    show "\<exists>s. heap st' j = Some s \<and> chan s = c \<and> (opened s \<or> unobserved s)"
    proof (cases "j = i")
      case True
      with u assms(3) t show ?thesis by (auto simp: f)
    next
      case False
      with u show ?thesis by (simp add: f)
    qed
  next
    fix j u
    assume h: "heap st' j = Some u"
    show "j < next_id st'"
      using h registry_invD(2) [OF assms(1), of j u] registry_invD(2) [OF assms(1,3)]
      by (cases "j = i") (simp_all add: f)
    show "sid u = j"
      using h registry_invD(2) [OF assms(1), of j u] registry_invD(2) [OF assms(1,3)] t(3)
      by (cases "j = i") (auto simp: f)
    show "if msgObservers st' (chan u) = Some j then opened u \<or> unobserved u else torn_down u"
    proof (cases "j = i")
      case True
      with h have "u = initialised s" by (simp add: f)
      with t cs r True show ?thesis by (simp add: f)
    next
      case False
      with h have old: "heap st j = Some u" by (simp add: f)
      from registry_invD(2) [OF assms(1) old] show ?thesis by (simp add: f)
    qed
    show "player_connected u \<longleftrightarrow> opened u"
      using h registry_invD(2) [OF assms(1), of j u] t(1)
      by (cases "j = i") (auto simp: f initialised_def)
  next
    fix j c w
    assume p: "map_of (initialising st') j = Some (c, w)"
    then have ji: "j \<noteq> i" and p0: "map_of (initialising st) j = Some (c, w)"
      by (auto simp: f split: if_splits)
    from registry_invD(3) [OF assms(1) p0] ji
    show "msgObservers st' c = Some j" "\<exists>s. heap st' j = Some s \<and> unobserved s"
      by (auto simp: f)
  next
    fix j w cb
    assume "(j, w, cb) \<in> set (resolving st')"
    then have w: "(cb = AddItemToQueue \<or> cb = AddNextItemToQueue) \<and>
           (\<exists>s. heap st j = Some s \<and> (opened s \<or> torn_down s))"
      using registry_invD(4) [OF assms(1), of j w cb] by (simp add: f)
    then show "cb = AddItemToQueue \<or> cb = AddNextItemToQueue" by simp
    from w t(1) show "\<exists>s. heap st' j = Some s \<and> (opened s \<or> torn_down s)"
      by (cases "j = i") (auto simp: f)
  qed
  then show ?thesis by (simp add: st'_def)
qed

lemma abandon_inv:
  assumes "registry_inv st"
  shows "registry_inv (st\<lparr>initialising := AList.delete i (initialising st)\<rparr>)"
proof -
  have "map_of (AList.delete i (initialising st)) j = Some cv \<Longrightarrow>
        map_of (initialising st) j = Some cv" for j cv
    by (auto simp: delete_conv' split: if_splits)
  with assms show ?thesis
    unfolding registry_inv_def by simp
qed

lemma deliver_unobserved:
  assumes "msgObservers st ch = Some i" "heap st i = Some s" "\<not> observer_subscribed s"
  shows "deliver st ch v = (st, [])"
proof -
  have "(heap st)(i \<mapsto> s) = heap st"
    using assms(2) by (simp add: fun_upd_idem)
  then show ?thesis
    using assms(1,2) by (simp add: deliver_def unobserved_silent [OF assms(3)])
qed

lemma deliver_other:
  assumes "msgObservers st ch = Some i" "heap st i = Some s" "opened s"
    and "content (msg v) \<noteq> ''/disconnect''"
  shows "\<exists>es started. observer_next s v = (s, es, False, started)
           \<and> (started = None \<or> started = Some AddItemToQueue \<or> started = Some AddNextItemToQueue)
           \<and> deliver st ch v =
               (case started of None \<Rightarrow> st
                | Some cb \<Rightarrow> st\<lparr>resolving := resolving st @ [(i, v, cb)]\<rparr>, es)"
proof -
  from observer_next_other [OF assms(3,4)] obtain es started
    where o: "observer_next s v = (s, es, False, started)"
      "started = None \<or> started = Some AddItemToQueue \<or> started = Some AddNextItemToQueue"
    by blast
  have "(heap st)(i \<mapsto> s) = heap st"
    using assms(2) by (simp add: fun_upd_idem)
  then have "deliver st ch v =
               (case started of None \<Rightarrow> st
                | Some cb \<Rightarrow> st\<lparr>resolving := resolving st @ [(i, v, cb)]\<rparr>, es)"
    using assms(1,2) o(1) by (simp add: deliver_def)
  with o show ?thesis by blast
qed

lemma deliver_disconnect:
  assumes "msgObservers st ch = Some i" "heap st i = Some s" "opened s"
    and "content (msg v) = ''/disconnect''"
  shows "deliver st ch v =
     (st\<lparr>heap := (heap st)(i \<mapsto> (player_disconnected s)\<lparr>completed := UNIV,
              observer_subscribed := False, channel_completed := True\<rparr>),
         msgObservers := (msgObservers st)(chan s := None)\<rparr>,
      Deliver (sid s) Disconnect PNull # teardown_effects s)"
  using assms(1,2) observer_next_disconnect [OF assms(3,4)]
  by (simp add: deliver_def)

lemma deliver_inv:
  assumes "registry_inv st" "msgObservers st ch = Some i"
  shows "registry_inv (fst (deliver st ch v))"
proof -
  from registry_invD(1) [OF assms] obtain s
    where s: "heap st i = Some s" "chan s = ch" "opened s \<or> unobserved s" by blast
  from s(3) show ?thesis
  proof
    assume "unobserved s"
    then have "\<not> observer_subscribed s" by (simp add: unobserved_def)
    from deliver_unobserved [OF assms(2) s(1) this] assms(1) show ?thesis by simp
  next
    assume o: "opened s"
    show ?thesis
    proof (cases "content (msg v) = ''/disconnect''")
      case True
      show ?thesis
        unfolding deliver_disconnect [OF assms(2) s(1) o True] fst_conv
        by (rule teardown_inv [OF assms s(1) o])
    next
      case False
      from deliver_other [OF assms(2) s(1) o False] obtain es started
        where d: "started = None \<or> started = Some AddItemToQueue \<or> started = Some AddNextItemToQueue"
          "deliver st ch v =
               (case started of None \<Rightarrow> st
                | Some cb \<Rightarrow> st\<lparr>resolving := resolving st @ [(i, v, cb)]\<rparr>, es)"
        by blast
      have r: "registry_inv (st\<lparr>resolving := resolving st @ [(i, v, cb)]\<rparr>)"
        if "cb = AddItemToQueue \<or> cb = AddNextItemToQueue" for cb
        using registry_invD(4) [OF assms(1)] that s(1) o
        by (intro registry_inv_resolving [OF assms(1)]) auto
      from d(1) show ?thesis
        unfolding d(2) using assms(1) r by auto
    qed
  qed
qed


lemma handle_msg_accepted:
  assumes "accepted v ch"
  shows "handle_msg st v =
     (if msgObservers st ch = None then create_session st ch v else deliver st ch v)"
  using assms
  by (auto simp: handle_msg_def accepted_def)

lemma handle_msg_not_accepted:
  assumes "\<forall>ch. \<not> accepted v ch"
  shows "fst (handle_msg st v) = st"
  using assms
  by (auto simp: handle_msg_def accepted_def split: option.splits)

lemma handle_msg_inv:
  assumes "registry_inv st"
  shows "registry_inv (fst (handle_msg st v))"
proof (cases "\<exists>ch. accepted v ch")
  case False
  with handle_msg_not_accepted [of v st] assms show ?thesis by simp
next
  case True
  then obtain ch where a: "accepted v ch" by blast
  show ?thesis
  proof (cases "msgObservers st ch")
    case None
    with create_session_inv [OF assms None, of v] show ?thesis
      by (simp add: handle_msg_accepted [OF a])
  next
    case (Some i)
    with deliver_inv [OF assms Some] show ?thesis
      by (simp add: handle_msg_accepted [OF a])
  qed
qed

lemma player_ready_pending:
  assumes "registry_inv st" "map_of (initialising st) i = Some (ch, v)"
  obtains s where "heap st i = Some s" "unobserved s" "chan s = ch" "sid s = i"
    "msgObservers st ch = Some i"
    "player_ready st i =
       deliver (st\<lparr>initialising := AList.delete i (initialising st),
                   heap := (heap st)(i \<mapsto> initialised s)\<rparr>) ch v"
proof -
  from registry_invD(3) [OF assms] obtain s
    where s: "msgObservers st ch = Some i" "heap st i = Some s" "unobserved s" by blast
  from registry_invD(1) [OF assms(1) s(1)] s(2) have c: "chan s = ch" by auto
  from registry_invD(2) [OF assms(1) s(2)] have d: "sid s = i" by simp
  have "player_ready st i =
       deliver (st\<lparr>initialising := AList.delete i (initialising st),
                   heap := (heap st)(i \<mapsto> initialised s)\<rparr>) ch v"
    by (simp add: player_ready_def assms(2) s(2))
  with s c d that show ?thesis by blast
qed

lemma player_ready_inv:
  assumes "registry_inv st"
  shows "registry_inv (fst (player_ready st i))"
proof (cases "map_of (initialising st) i")
  case None
  with assms show ?thesis by (simp add: player_ready_def)
next
  case (Some cv)
  obtain ch v where cv: "cv = (ch, v)" by (cases cv)
  show ?thesis
  proof (rule player_ready_pending [OF assms Some [unfolded cv]])
    fix s
    assume s: "heap st i = Some s" "msgObservers st ch = Some i"
      "player_ready st i =
       deliver (st\<lparr>initialising := AList.delete i (initialising st),
                   heap := (heap st)(i \<mapsto> initialised s)\<rparr>) ch v"
    let ?st1 = "st\<lparr>initialising := AList.delete i (initialising st),
                   heap := (heap st)(i \<mapsto> initialised s)\<rparr>"
    have r: "msgObservers ?st1 ch = Some i" using s(2) by simp
    show ?thesis
      unfolding s(3)
      by (rule deliver_inv [OF initialise_inv [OF assms Some [unfolded cv] s(1)] r])
  qed
qed

lemma player_failed_inv:
  assumes "registry_inv st"
  shows "registry_inv (fst (player_failed st i))"
  using assms abandon_inv [OF assms, of i]
  by (simp add: player_failed_def split: option.splits)

lemma resolver_done_waiting:
  assumes "nth_opt (resolving st) n = Some (i, v, cb)" "cb \<noteq> Disconnect"
  shows "fst (resolver_done st n r) =
           st\<lparr>resolving := take n (resolving st) @ drop (Suc n) (resolving st)\<rparr>"
    and "snd (resolver_done st n r) =
           (case heap st i of None \<Rightarrow> [] | Some s \<Rightarrow> fst (snd (addItemToQueue r s v cb)))"
proof -
  show "fst (resolver_done st n r) =
           st\<lparr>resolving := take n (resolving st) @ drop (Suc n) (resolving st)\<rparr>"
  proof (cases "heap st i")
    case None
    then show ?thesis by (simp add: resolver_done_def assms(1))
  next
    case (Some s)
    from addItemToQueue_keeps [OF assms(2), of r s v] obtain es
      where a: "addItemToQueue r s v cb = (s, es, False)" by blast
    have "(heap st)(i \<mapsto> s) = heap st"
      using Some by (simp add: fun_upd_idem)
    then show ?thesis
      by (simp add: resolver_done_def assms(1) Some a Let_def)
  qed
  show "snd (resolver_done st n r) =
           (case heap st i of None \<Rightarrow> [] | Some s \<Rightarrow> fst (snd (addItemToQueue r s v cb)))"
    by (simp add: resolver_done_def assms(1) Let_def case_prod_beta split: option.splits)
qed

lemma resolver_done_inv:
  assumes "registry_inv st"
  shows "registry_inv (fst (resolver_done st n r))"
proof (cases "nth_opt (resolving st) n")
  case None
  with assms show ?thesis by (simp add: resolver_done_def)
next
  case (Some x)
  obtain i v cb where x: "x = (i, v, cb)" by (cases x)
  from nth_opt_Some [OF Some [unfolded x]] registry_invD(4) [OF assms]
  have cb: "cb \<noteq> Disconnect" by auto
  have sub: "\<forall>j w c. (j, w, c) \<in> set (take n (resolving st) @ drop (Suc n) (resolving st)) \<longrightarrow>
      (c = AddItemToQueue \<or> c = AddNextItemToQueue) \<and>
      (\<exists>s. heap st j = Some s \<and> (opened s \<or> torn_down s))"
  proof (intro allI impI)
    fix j w c
    assume "(j, w, c) \<in> set (take n (resolving st) @ drop (Suc n) (resolving st))"
    then have "(j, w, c) \<in> set (resolving st)"
      using in_set_takeD [of "(j, w, c)" n "resolving st"]
        in_set_dropD [of "(j, w, c)" "Suc n" "resolving st"] by auto
    from registry_invD(4) [OF assms this]
    show "(c = AddItemToQueue \<or> c = AddNextItemToQueue) \<and>
      (\<exists>s. heap st j = Some s \<and> (opened s \<or> torn_down s))" .
  qed
  show ?thesis
    unfolding resolver_done_waiting(1) [OF Some [unfolded x] cb]
    by (rule registry_inv_resolving [OF assms sub])
qed

lemma step_inv: "registry_inv st \<Longrightarrow> registry_inv (fst (step st e))"
  by (cases e) (simp_all add: handle_msg_inv player_ready_inv player_failed_inv resolver_done_inv)

lemma run_inv:
  "registry_inv st \<Longrightarrow> registry_inv (fst (run st es))"
proof (induction es arbitrary: st)
  case Nil
  then show ?case by simp
next
  case (Cons e es)
  from Cons.IH [OF step_inv [OF Cons.prems, of e]]
  show ?case
    by (simp add: case_prod_beta)
qed

lemma reachable_inv: "registry_inv (fst (run init_state es))"
  by (rule run_inv [OF registry_inv_init])

section \<open>What the command observer can do\<close>

lemma complete_all_effects:
  "\<forall>e \<in> set (snd (complete_all i done xs)). \<not> creation_or_fault e"
  by (induction xs arbitrary: "done") (auto simp: Let_def case_prod_beta)

lemma send_message_effects:
  "\<forall>e \<in> set (send_message s text). \<not> creation_or_fault e"
  by (simp add: send_message_def)

lemma teardown_effects_kind:
  "\<forall>e \<in> set (fst (snd (teardown s))). \<not> creation_or_fault e"
  using complete_all_effects [of "sid s" "completed s" env_subjects] send_message_effects [of s "''Bye!''"]
  by (auto simp: teardown_def Let_def case_prod_beta)

lemma env_next_effects:
  "\<forall>e \<in> set (fst (snd (env_next s subj v))). \<not> creation_or_fault e"
  using teardown_effects_kind [of "player_disconnected s"] send_message_effects [of s]
  by (cases subj; cases v) (auto simp: env_next_def case_prod_beta)

lemma addItemToQueue_effects:
  "\<forall>e \<in> set (fst (snd (addItemToQueue r s v cb))). \<not> creation_or_fault e"
  using env_next_effects [of s cb] send_message_effects [of s]
  by (cases r) (auto simp: addItemToQueue_def)


section \<open>Facts about the handler\<close>

lemma with_player_teardown:
  "with_player (Deliver i Disconnect p # teardown_effects s) =
     PlayerImpl_disconnect i @ teardown_effects s"
  by (simp add: with_player_def teardown_effects_def env_subjects_def)

lemma live_opened: "opened s \<Longrightarrow> live s"
  by (simp add: opened_def live_def)










lemma one_session_resolving_reached:
  "one_session_resolving = fst (run init_state [Message play_msg, PlayerReady 0])"
  by (simp add: handle_msg_def play_msg_def msg0_def startsWith_def create_session_def deliver_def
      observer_next_def player_ready_def new_session_def initialised_def
      init_state_def one_session_def one_session_resolving_def Let_def)

lemma one_session_reached:
  "one_session = fst (run init_state [Message play_msg, PlayerReady 0, Resolved 0 (Found song)])"
  by (simp add: handle_msg_def play_msg_def msg0_def startsWith_def create_session_def deliver_def
      observer_next_def player_ready_def new_session_def initialised_def resolver_done_def
      addItemToQueue_def env_next_def song_def send_message_def
      init_state_def one_session_def Let_def)

lemma sample_accepted:
  "accepted play_msg ''vc''" "accepted other_msg ''vc2''" "accepted disconnect_msg ''vc''"
  "accepted third_msg ''vc3''"
  by (simp_all add: accepted_def play_msg_def other_msg_def disconnect_msg_def third_msg_def
      msg0_def startsWith_def)

lemma one_session_registry:
  "msgObservers one_session ''vc'' = Some 0" "msgObservers one_session ''vc2'' = None"
  "heap one_session 0 = Some (initialised (new_session 0 ''vc'' msg0))" "next_id one_session = 1"
  by (simp_all add: one_session_def)

lemma opened_sample: "opened (initialised (new_session i ch m))"
  by (rule opened_initialised [OF unobserved_new_session])


lemma waiting_session:
  assumes "registry_inv st" "nth_opt (resolving st) n = Some (i, v, cb)" "heap st i = Some s"
  shows "cb \<noteq> Disconnect" "sid s = i" "live s \<longleftrightarrow> SendMessage \<notin> completed s"
    "live s \<longleftrightarrow> opened s"
proof -
  note m = registry_invD(4) [OF assms(1) nth_opt_Some [OF assms(2)]]
  from m have w1: "cb = AddItemToQueue \<or> cb = AddNextItemToQueue" by simp
  from m assms(3) have w2: "opened s \<or> torn_down s" by auto
  note w = w1 w2
  from w(1) show "cb \<noteq> Disconnect" by auto
  from registry_invD(2) [OF assms(1,3)] show "sid s = i" by simp
  from w(2) show "live s \<longleftrightarrow> SendMessage \<notin> completed s"
    by (auto simp: opened_def torn_down_def live_def)
  from w(2) show "live s \<longleftrightarrow> opened s"
    by (auto simp: opened_def torn_down_def live_def)
qed

section \<open>Facts about the store, backup and restore\<close>

lemma tick_nofault: "faults st = [] \<Longrightarrow> tick st = (False, st)"
  by (simp add: tick_def)

lemma store_put_nofault:
  "faults st = [] \<Longrightarrow>
   store_put st k v = (Inr (), st\<lparr>entries := AList.update k v (entries st)\<rparr>)"
  by (simp add: store_put_def tick_nofault)











lemma tick_entries: "entries (snd (tick st)) = entries st"
  by (simp add: tick_def split: list.splits)


lemma store_get_nofault:
  "faults st = [] \<Longrightarrow> store_get st k = (Inr (map_of (entries st) k), st)"
  by (simp add: store_get_def tick_nofault)





section \<open>Facts about trackPlaylist\<close>

lemma getOrCreate_absent:
  "faults st = [] \<Longrightarrow> map_of (entries st) i = None \<Longrightarrow>
   getOrCreate st i d = (Inr d, st\<lparr>entries := AList.update i (Text d) (entries st)\<rparr>)"
  by (simp add: getOrCreate_def repo_get_def repo_put_def store_get_nofault store_put_nofault
      JSON_stringify_def)

lemma getOrCreate_present:
  "faults st = [] \<Longrightarrow> map_of (entries st) i = Some (Text j) \<Longrightarrow>
   getOrCreate st i d = (Inr j, st)"
  by (simp add: getOrCreate_def repo_get_def store_get_nofault)

lemma repo_put_nofault:
  "faults st = [] \<Longrightarrow>
   repo_put st i j = (Inr j, st\<lparr>entries := AList.update i (Text j) (entries st)\<rparr>)"
  by (simp add: repo_put_def store_put_nofault JSON_stringify_def)

lemma createPlaylist_ok:
  assumes "faults st = []" "channel_before st (channelId ev) = Some (JObj kvs)"
    and "map_of kvs ''playlists'' = Some (JArr ps)"
  shows "createPlaylist ev st =
     (Inr (JObj (AList.update ''playlists'' (JArr (ps @ [JStr (uuid ev)])) kvs)),
      st\<lparr>entries := AList.update (channelId ev)
          (Text (JObj (AList.update ''playlists'' (JArr (ps @ [JStr (uuid ev)])) kvs))) (entries st)\<rparr>)"
proof (cases "map_of (entries st) (channelId ev)")
  case None
  with assms(2) have d: "channel_default = JObj kvs"
    by (simp add: channel_before_def)
  let ?st1 = "st\<lparr>entries := AList.update (channelId ev) (Text channel_default) (entries st)\<rparr>"
  have f: "faults ?st1 = []" using assms(1) by simp
  show ?thesis
    unfolding createPlaylist_def getOrCreate_absent [OF assms(1) None]
    using assms(1,3) by (simp add: d repo_put_nofault)
next
  case (Some v)
  with assms(2) have v: "v = Text (JObj kvs)"
    by (cases v) (simp_all add: channel_before_def)
  show ?thesis
    unfolding createPlaylist_def getOrCreate_present [OF assms(1) Some [unfolded v]]
    using assms(1,3) by (simp add: repo_put_nofault)
qed

lemma snapshot_ok:
  assumes "faults st = []"
    and "map_of (entries st) (uuid ev) = None \<or>
         (\<exists>q0. map_of (entries st) (uuid ev) = Some (Text (snapshot_record ev q0)))"
  shows "snapshot ev q st =
     (Inr (snapshot_record ev q),
      st\<lparr>entries := AList.update (uuid ev) (Text (snapshot_record ev q)) (entries st)\<rparr>)"
  using assms(2)
proof
  assume n: "map_of (entries st) (uuid ev) = None"
  let ?st1 = "st\<lparr>entries := AList.update (uuid ev) (Text (playlist_default (timestamp ev))) (entries st)\<rparr>"
  have f: "faults ?st1 = []" using assms(1) by simp
  show ?thesis
    unfolding snapshot_def getOrCreate_absent [OF assms(1) n]
    using assms(1) by (simp add: playlist_default_def snapshot_record_def meta_def repo_put_nofault)
next
  assume "\<exists>q0. map_of (entries st) (uuid ev) = Some (Text (snapshot_record ev q0))"
  then obtain q0 where p: "map_of (entries st) (uuid ev) = Some (Text (snapshot_record ev q0))"
    by blast
  show ?thesis
    unfolding snapshot_def getOrCreate_present [OF assms(1) p]
    using assms(1) by (simp add: snapshot_record_def meta_def repo_put_nofault)
qed

lemma snapshots_ok:
  assumes "faults st = []"
    and "map_of (entries st) (uuid ev) = None \<or>
         (\<exists>q0. map_of (entries st) (uuid ev) = Some (Text (snapshot_record ev q0)))"
  shows "fst (snapshots ev qs st) = Completes (map (snapshot_record ev) qs) \<and>
         map_of (entries (snd (snapshots ev qs st))) =
           (if qs = [] then map_of (entries st)
            else (map_of (entries st))(uuid ev \<mapsto> Text (snapshot_record ev (last qs))))"
  using assms
proof (induction qs arbitrary: st)
  case Nil
  then show ?case by simp
next
  case (Cons q qs)
  let ?st1 = "st\<lparr>entries := AList.update (uuid ev) (Text (snapshot_record ev q)) (entries st)\<rparr>"
  have f: "faults ?st1 = []" using Cons.prems(1) by simp
  have m: "map_of (entries ?st1) = (map_of (entries st))(uuid ev \<mapsto> Text (snapshot_record ev q))"
    by (simp add: update_conv')
  have p: "map_of (entries ?st1) (uuid ev) = None \<or>
         (\<exists>q0. map_of (entries ?st1) (uuid ev) = Some (Text (snapshot_record ev q0)))"
    unfolding m by auto
  have step: "snapshots ev (q # qs) st =
      (emit_first (snapshot_record ev q) (fst (snapshots ev qs ?st1)), snd (snapshots ev qs ?st1))"
    by (simp add: snapshot_ok [OF Cons.prems] case_prod_beta)
  from Cons.IH [OF f p]
  have ih: "fst (snapshots ev qs ?st1) = Completes (map (snapshot_record ev) qs)"
    "map_of (entries (snd (snapshots ev qs ?st1))) =
       (if qs = [] then map_of (entries ?st1)
        else (map_of (entries ?st1))(uuid ev \<mapsto> Text (snapshot_record ev (last qs))))"
    by simp_all
  have out: "fst (snapshots ev (q # qs) st) = Completes (map (snapshot_record ev) (q # qs))"
    unfolding step by (simp add: ih(1))
  have fin: "map_of (entries (snd (snapshots ev (q # qs) st))) =
      (map_of (entries st))(uuid ev \<mapsto> Text (snapshot_record ev (last (q # qs))))"
  proof (cases "qs = []")
    case True
    then show ?thesis unfolding step by (simp add: update_conv')
  next
    case False
    then show ?thesis unfolding step by (simp add: ih(2) update_conv')
  qed
  from out fin show ?case by simp
qed

lemma tracking_ok:
  assumes "faults st = []" "channelId ev \<noteq> uuid ev" "map_of (entries st) (uuid ev) = None"
    and "channel_before st (channelId ev) = Some (JObj kvs)"
    and "map_of kvs ''playlists'' = Some (JArr ps)"
  shows "fst (tracking ev qs st) =
           Completes (JObj (AList.update ''playlists'' (JArr (ps @ [JStr (uuid ev)])) kvs)
                      # map (snapshot_record ev) qs)"
    and "map_of (entries (snd (tracking ev qs st))) =
           (if qs = []
            then (map_of (entries st))(channelId ev \<mapsto>
                   Text (JObj (AList.update ''playlists'' (JArr (ps @ [JStr (uuid ev)])) kvs)))
            else (map_of (entries st))(channelId ev \<mapsto>
                   Text (JObj (AList.update ''playlists'' (JArr (ps @ [JStr (uuid ev)])) kvs)),
                   uuid ev \<mapsto> Text (snapshot_record ev (last qs))))"
proof -
  let ?c = "JObj (AList.update ''playlists'' (JArr (ps @ [JStr (uuid ev)])) kvs)"
  let ?st1 = "st\<lparr>entries := AList.update (channelId ev) (Text ?c) (entries st)\<rparr>"
  have f: "faults ?st1 = []" using assms(1) by simp
  have m: "map_of (entries ?st1) = (map_of (entries st))(channelId ev \<mapsto> Text ?c)"
    by (simp add: update_conv')
  have p: "map_of (entries ?st1) (uuid ev) = None \<or>
         (\<exists>q0. map_of (entries ?st1) (uuid ev) = Some (Text (snapshot_record ev q0)))"
    unfolding m using assms(2,3) by simp
  have t: "tracking ev qs st =
      (emit_first ?c (fst (snapshots ev qs ?st1)), snd (snapshots ev qs ?st1))"
    by (simp add: tracking_def tick_nofault [OF assms(1)] createPlaylist_ok [OF assms(1,4,5)]
        case_prod_beta)
  note s = snapshots_ok [OF f p, of qs]
  show "fst (tracking ev qs st) = Completes (?c # map (snapshot_record ev) qs)"
    unfolding t using s by simp
  show "map_of (entries (snd (tracking ev qs st))) =
           (if qs = [] then (map_of (entries st))(channelId ev \<mapsto> Text ?c)
            else (map_of (entries st))(channelId ev \<mapsto> Text ?c,
                   uuid ev \<mapsto> Text (snapshot_record ev (last qs))))"
    unfolding t using s by (simp add: update_conv')
qed

lemma store_get_cases:
  "(\<exists>st1. store_get st k = (Inl StoreError, st1) \<and> entries st1 = entries st)
   \<or> (\<exists>st1. store_get st k = (Inr (map_of (entries st) k), st1) \<and> entries st1 = entries st)"
  by (cases "faults st") (auto simp: store_get_def tick_def)

lemma store_put_cases:
  "(\<exists>st1. store_put st k v = (Inl StoreError, st1) \<and> entries st1 = entries st)
   \<or> (\<exists>st1. store_put st k v = (Inr (), st1) \<and> entries st1 = AList.update k v (entries st))"
  by (cases "faults st") (auto simp: store_put_def tick_def)

lemma repo_put_cases:
  "(\<exists>st1. repo_put st i j = (Inl StoreError, st1) \<and> map_of (entries st1) = map_of (entries st))
   \<or> (\<exists>st1. repo_put st i j = (Inr j, st1)
          \<and> map_of (entries st1) = (map_of (entries st))(i \<mapsto> Text j))"
  using store_put_cases [of st i "JSON_stringify j"]
  by (auto simp: repo_put_def JSON_stringify_def update_conv')

lemma getOrCreate_absent_cases:
  assumes "map_of (entries st) i = None"
  shows "(\<exists>st1. getOrCreate st i d = (Inl StoreError, st1)
            \<and> map_of (entries st1) = map_of (entries st))
   \<or> (\<exists>st1. getOrCreate st i d = (Inr d, st1)
          \<and> map_of (entries st1) = (map_of (entries st))(i \<mapsto> Text d))"
proof -
  from store_get_cases [of st i] show ?thesis
  proof
    assume "\<exists>st1. store_get st i = (Inl StoreError, st1) \<and> entries st1 = entries st"
    then show ?thesis by (auto simp: getOrCreate_def repo_get_def)
  next
    assume "\<exists>st1. store_get st i = (Inr (map_of (entries st) i), st1) \<and> entries st1 = entries st"
    then obtain st1 where g: "store_get st i = (Inr None, st1)" "entries st1 = entries st"
      using assms by auto
    have e: "getOrCreate st i d = repo_put st1 i d"
      by (simp add: getOrCreate_def repo_get_def g(1))
    from repo_put_cases [of st1 i d] show ?thesis
      unfolding e g(2) by blast
  qed
qed

lemma getOrCreate_present_cases:
  assumes "map_of (entries st) i = Some (Text j)"
  shows "(\<exists>st1. getOrCreate st i d = (Inl StoreError, st1)
            \<and> map_of (entries st1) = map_of (entries st))
   \<or> (\<exists>st1. getOrCreate st i d = (Inr j, st1)
          \<and> map_of (entries st1) = map_of (entries st))"
  using store_get_cases [of st i] assms
  by (auto simp: getOrCreate_def repo_get_def)

lemma createPlaylist_cases:
  assumes "channel_before st (channelId ev) = Some (JObj kvs)"
    and "map_of kvs ''playlists'' = Some (JArr ps)"
  shows "(\<exists>st1. createPlaylist ev st = (Inl StoreError, st1)
            \<and> (map_of (entries st1) = map_of (entries st)
               \<or> map_of (entries st) (channelId ev) = None
                 \<and> map_of (entries st1) = (map_of (entries st))(channelId ev \<mapsto> Text channel_default)))
   \<or> (\<exists>st1. createPlaylist ev st =
               (Inr (JObj (AList.update ''playlists'' (JArr (ps @ [JStr (uuid ev)])) kvs)), st1)
          \<and> map_of (entries st1) =
              (map_of (entries st))(channelId ev \<mapsto>
                 Text (JObj (AList.update ''playlists'' (JArr (ps @ [JStr (uuid ev)])) kvs))))"
proof (cases "map_of (entries st) (channelId ev)")
  case None
  with assms(1) have d: "channel_default = JObj kvs"
    by (simp add: channel_before_def)
  from getOrCreate_absent_cases [OF None, of channel_default] show ?thesis
  proof
    assume "\<exists>st1. getOrCreate st (channelId ev) channel_default = (Inl StoreError, st1)
            \<and> map_of (entries st1) = map_of (entries st)"
    then show ?thesis by (auto simp: createPlaylist_def)
  next
    assume "\<exists>st1. getOrCreate st (channelId ev) channel_default = (Inr channel_default, st1)
          \<and> map_of (entries st1) = (map_of (entries st))(channelId ev \<mapsto> Text channel_default)"
    then obtain st1 where g: "getOrCreate st (channelId ev) channel_default = (Inr channel_default, st1)"
      "map_of (entries st1) = (map_of (entries st))(channelId ev \<mapsto> Text channel_default)" by blast
    have e: "createPlaylist ev st =
        repo_put st1 (channelId ev) (JObj (AList.update ''playlists'' (JArr (ps @ [JStr (uuid ev)])) kvs))"
      unfolding createPlaylist_def g(1) using assms(2) by (simp add: d)
    from repo_put_cases [of st1 "channelId ev"
        "JObj (AList.update ''playlists'' (JArr (ps @ [JStr (uuid ev)])) kvs)"]
    show ?thesis
      unfolding e g(2) using None by auto
  qed
next
  case (Some v)
  with assms(1) have v: "v = Text (JObj kvs)"
    by (cases v) (simp_all add: channel_before_def)
  from getOrCreate_present_cases [OF Some [unfolded v], of channel_default] show ?thesis
  proof
    assume "\<exists>st1. getOrCreate st (channelId ev) channel_default = (Inl StoreError, st1)
            \<and> map_of (entries st1) = map_of (entries st)"
    then show ?thesis by (auto simp: createPlaylist_def)
  next
    assume "\<exists>st1. getOrCreate st (channelId ev) channel_default = (Inr (JObj kvs), st1)
          \<and> map_of (entries st1) = map_of (entries st)"
    then obtain st1 where g: "getOrCreate st (channelId ev) channel_default = (Inr (JObj kvs), st1)"
      "map_of (entries st1) = map_of (entries st)" by blast
    have e: "createPlaylist ev st =
        repo_put st1 (channelId ev) (JObj (AList.update ''playlists'' (JArr (ps @ [JStr (uuid ev)])) kvs))"
      unfolding createPlaylist_def g(1) using assms(2) by simp
    from repo_put_cases [of st1 "channelId ev"
        "JObj (AList.update ''playlists'' (JArr (ps @ [JStr (uuid ev)])) kvs)"]
    show ?thesis
      unfolding e g(2) by auto
  qed
qed

lemma snapshot_cases:
  assumes "map_of (entries st) (uuid ev) = None \<or>
         (\<exists>q0. map_of (entries st) (uuid ev) = Some (Text (snapshot_record ev q0)))"
  shows "(\<exists>st1. snapshot ev q st = (Inl StoreError, st1)
            \<and> (map_of (entries st1) = map_of (entries st)
               \<or> map_of (entries st) (uuid ev) = None
                 \<and> map_of (entries st1) = (map_of (entries st))(uuid ev \<mapsto> Text (snapshot_record ev []))))
   \<or> (\<exists>st1. snapshot ev q st = (Inr (snapshot_record ev q), st1)
          \<and> map_of (entries st1) = (map_of (entries st))(uuid ev \<mapsto> Text (snapshot_record ev q)))"
  using assms
proof
  assume n: "map_of (entries st) (uuid ev) = None"
  have d: "playlist_default (timestamp ev) = snapshot_record ev []"
    by (simp add: playlist_default_def snapshot_record_def)
  from getOrCreate_absent_cases [OF n, of "playlist_default (timestamp ev)"] show ?thesis
  proof
    assume "\<exists>st1. getOrCreate st (uuid ev) (playlist_default (timestamp ev)) = (Inl StoreError, st1)
            \<and> map_of (entries st1) = map_of (entries st)"
    then show ?thesis by (auto simp: snapshot_def)
  next
    assume "\<exists>st1. getOrCreate st (uuid ev) (playlist_default (timestamp ev)) =
               (Inr (playlist_default (timestamp ev)), st1)
          \<and> map_of (entries st1) = (map_of (entries st))(uuid ev \<mapsto> Text (playlist_default (timestamp ev)))"
    then obtain st1 where g: "getOrCreate st (uuid ev) (playlist_default (timestamp ev)) =
               (Inr (playlist_default (timestamp ev)), st1)"
      "map_of (entries st1) = (map_of (entries st))(uuid ev \<mapsto> Text (snapshot_record ev []))"
      unfolding d by blast
    have e: "snapshot ev q st = repo_put st1 (uuid ev) (snapshot_record ev q)"
      unfolding snapshot_def g(1)
      by (simp add: playlist_default_def snapshot_record_def meta_def)
    from repo_put_cases [of st1 "uuid ev" "snapshot_record ev q"]
    show ?thesis
      unfolding e g(2) using n by auto
  qed
next
  assume "\<exists>q0. map_of (entries st) (uuid ev) = Some (Text (snapshot_record ev q0))"
  then obtain q0 where p: "map_of (entries st) (uuid ev) = Some (Text (snapshot_record ev q0))"
    by blast
  from getOrCreate_present_cases [OF p, of "playlist_default (timestamp ev)"] show ?thesis
  proof
    assume "\<exists>st1. getOrCreate st (uuid ev) (playlist_default (timestamp ev)) = (Inl StoreError, st1)
            \<and> map_of (entries st1) = map_of (entries st)"
    then show ?thesis by (auto simp: snapshot_def)
  next
    assume "\<exists>st1. getOrCreate st (uuid ev) (playlist_default (timestamp ev)) =
               (Inr (snapshot_record ev q0), st1)
          \<and> map_of (entries st1) = map_of (entries st)"
    then obtain st1 where g: "getOrCreate st (uuid ev) (playlist_default (timestamp ev)) =
               (Inr (snapshot_record ev q0), st1)"
      "map_of (entries st1) = map_of (entries st)" by blast
    have e: "snapshot ev q st = repo_put st1 (uuid ev) (snapshot_record ev q)"
      unfolding snapshot_def g(1)
      by (simp add: snapshot_record_def meta_def)
    from repo_put_cases [of st1 "uuid ev" "snapshot_record ev q"]
    show ?thesis
      unfolding e g(2) by auto
  qed
qed

lemma foldr_emit_first_Completes: "foldr emit_first js (Completes xs) = Completes (js @ xs)"
  by (induction js) simp_all

lemma foldr_emit_first_Fails: "foldr emit_first js (Fails xs e) = Fails (js @ xs) e"
  by (induction js) simp_all

lemma emit_first_Completes_iff:
  "emit_first x out = Completes js \<longleftrightarrow> (\<exists>xs. out = Completes xs \<and> js = x # xs)"
  by (cases out) auto

lemma snapshots_append:
  "snapshots ev (qs1 @ qs2) st =
     (case snapshots ev qs1 st of
        (Completes js, st1) \<Rightarrow>
          (foldr emit_first js (fst (snapshots ev qs2 st1)), snd (snapshots ev qs2 st1))
      | (Fails js e, st1) \<Rightarrow> (Fails js e, st1))"
proof (induction qs1 arbitrary: st)
  case Nil
  then show ?case by simp
next
  case (Cons q qs1)
  obtain r st1 where s: "snapshot ev q st = (r, st1)" by (cases "snapshot ev q st")
  show ?case
  proof (cases r)
    case (Inl e)
    then show ?thesis by (simp add: s)
  next
    case (Inr j)
    obtain out st2 where t: "snapshots ev qs1 st1 = (out, st2)" by (cases "snapshots ev qs1 st1")
    show ?thesis
      using Cons.IH [of st1]
      by (cases out) (simp_all add: s Inr t case_prod_beta)
  qed
qed

lemma snapshots_Completes:
  assumes "map_of (entries st) (uuid ev) = None \<or>
         (\<exists>q0. map_of (entries st) (uuid ev) = Some (Text (snapshot_record ev q0)))"
    and "fst (snapshots ev qs st) = Completes js"
  shows "js = map (snapshot_record ev) qs \<and>
         map_of (entries (snd (snapshots ev qs st))) =
           (if qs = [] then map_of (entries st)
            else (map_of (entries st))(uuid ev \<mapsto> Text (snapshot_record ev (last qs))))"
  using assms
proof (induction qs arbitrary: st js)
  case Nil
  then show ?case by simp
next
  case (Cons q qs)
  from snapshot_cases [OF Cons.prems(1), of q] show ?case
  proof
    assume "\<exists>st1. snapshot ev q st = (Inl StoreError, st1)
            \<and> (map_of (entries st1) = map_of (entries st)
               \<or> map_of (entries st) (uuid ev) = None
                 \<and> map_of (entries st1) = (map_of (entries st))(uuid ev \<mapsto> Text (snapshot_record ev [])))"
    with Cons.prems(2) show ?thesis by auto
  next
    assume "\<exists>st1. snapshot ev q st = (Inr (snapshot_record ev q), st1)
          \<and> map_of (entries st1) = (map_of (entries st))(uuid ev \<mapsto> Text (snapshot_record ev q))"
    then obtain st1 where s: "snapshot ev q st = (Inr (snapshot_record ev q), st1)"
      "map_of (entries st1) = (map_of (entries st))(uuid ev \<mapsto> Text (snapshot_record ev q))"
      by blast
    have step: "snapshots ev (q # qs) st =
        (emit_first (snapshot_record ev q) (fst (snapshots ev qs st1)), snd (snapshots ev qs st1))"
      by (simp add: s(1) case_prod_beta)
    from Cons.prems(2) obtain js' where js: "fst (snapshots ev qs st1) = Completes js'"
      "js = snapshot_record ev q # js'"
      unfolding step by (auto simp: emit_first_Completes_iff)
    have p: "map_of (entries st1) (uuid ev) = None \<or>
         (\<exists>q0. map_of (entries st1) (uuid ev) = Some (Text (snapshot_record ev q0)))"
      unfolding s(2) by auto
    from Cons.IH [OF p js(1)]
    have ih: "js' = map (snapshot_record ev) qs"
      "map_of (entries (snd (snapshots ev qs st1))) =
         (if qs = [] then map_of (entries st1)
          else (map_of (entries st1))(uuid ev \<mapsto> Text (snapshot_record ev (last qs))))"
      by simp_all
    have fin: "map_of (entries (snd (snapshots ev (q # qs) st))) =
        (map_of (entries st))(uuid ev \<mapsto> Text (snapshot_record ev (last (q # qs))))"
    proof (cases "qs = []")
      case True
      then show ?thesis unfolding step by (simp add: ih(2) s(2))
    next
      case False
      then show ?thesis unfolding step by (simp add: ih(2) s(2))
    qed
    from fin ih(1) js(2) show ?thesis by simp
  qed
qed

lemma tracking_append:
  "tracking ev (qs1 @ qs2) st =
     (case tracking ev qs1 st of
        (Completes js, st1) \<Rightarrow>
          (foldr emit_first js (fst (snapshots ev qs2 st1)), snd (snapshots ev qs2 st1))
      | (Fails js e, st1) \<Rightarrow> (Fails js e, st1))"
proof -
  obtain f st0 where t: "tick st = (f, st0)" by (cases "tick st")
  show ?thesis
  proof (cases f)
    case True
    then show ?thesis by (simp add: tracking_def t)
  next
    case False
    obtain r st1 where c: "createPlaylist ev st0 = (r, st1)" by (cases "createPlaylist ev st0")
    show ?thesis
    proof (cases r)
      case (Inl e)
      then show ?thesis by (simp add: tracking_def t False c)
    next
      case (Inr j)
      obtain out st2 where s: "snapshots ev qs1 st1 = (out, st2)" by (cases "snapshots ev qs1 st1")
      show ?thesis
        by (cases out) (simp_all add: tracking_def t False c Inr snapshots_append [of ev qs1 qs2 st1] s)
    qed
  qed
qed

lemma tracking_stops:
  assumes "fst (tracking ev qs1 st) = Fails js e"
  shows "tracking ev (qs1 @ qs2) st = tracking ev qs1 st"
proof -
  obtain out st1 where t: "tracking ev qs1 st = (out, st1)" by (cases "tracking ev qs1 st")
  with assms show ?thesis
    by (simp add: tracking_append [of ev qs1 qs2 st])
qed

lemma tracking_nil_cases:
  assumes "channel_before st (channelId ev) = Some (JObj kvs)"
    and "map_of kvs ''playlists'' = Some (JArr ps)"
  shows "(\<exists>st1. tracking ev [] st = (Fails [] StoreError, st1)
            \<and> (map_of (entries st1) = map_of (entries st)
               \<or> map_of (entries st) (channelId ev) = None
                 \<and> map_of (entries st1) = (map_of (entries st))(channelId ev \<mapsto> Text channel_default)))
   \<or> (\<exists>st1. tracking ev [] st =
               (Completes [JObj (AList.update ''playlists'' (JArr (ps @ [JStr (uuid ev)])) kvs)], st1)
          \<and> map_of (entries st1) =
              (map_of (entries st))(channelId ev \<mapsto>
                 Text (JObj (AList.update ''playlists'' (JArr (ps @ [JStr (uuid ev)])) kvs))))"
proof -
  obtain f st0 where t: "tick st = (f, st0)" by (cases "tick st")
  with tick_entries [of st] have e0: "entries st0 = entries st" by simp
  show ?thesis
  proof (cases f)
    case True
    then show ?thesis by (simp add: tracking_def t e0)
  next
    case False
    have b: "channel_before st0 (channelId ev) = Some (JObj kvs)"
      using assms(1) by (simp add: channel_before_def e0)
    from createPlaylist_cases [OF b assms(2)] show ?thesis
      unfolding e0
      by (auto simp: tracking_def t False)
  qed
qed

lemma tracking_from_nil:
  "tracking ev qs st =
     (case tracking ev [] st of
        (Completes js, st1) \<Rightarrow>
          (foldr emit_first js (fst (snapshots ev qs st1)), snd (snapshots ev qs st1))
      | (Fails js e, st1) \<Rightarrow> (Fails js e, st1))"
  using tracking_append [of ev "[]" qs st] by simp

lemma tracking_Completes:
  assumes "channelId ev \<noteq> uuid ev" "map_of (entries st) (uuid ev) = None"
    and "channel_before st (channelId ev) = Some (JObj kvs)"
    and "map_of kvs ''playlists'' = Some (JArr ps)"
    and "fst (tracking ev qs st) = Completes js"
  shows "js = JObj (AList.update ''playlists'' (JArr (ps @ [JStr (uuid ev)])) kvs)
              # map (snapshot_record ev) qs"
    and "map_of (entries (snd (tracking ev qs st))) =
           (if qs = []
            then (map_of (entries st))(channelId ev \<mapsto>
                   Text (JObj (AList.update ''playlists'' (JArr (ps @ [JStr (uuid ev)])) kvs)))
            else (map_of (entries st))(channelId ev \<mapsto>
                   Text (JObj (AList.update ''playlists'' (JArr (ps @ [JStr (uuid ev)])) kvs)),
                   uuid ev \<mapsto> Text (snapshot_record ev (last qs))))"
proof -
  let ?c = "JObj (AList.update ''playlists'' (JArr (ps @ [JStr (uuid ev)])) kvs)"
  from tracking_nil_cases [OF assms(3,4)]
  have "\<exists>st1. tracking ev [] st = (Completes [?c], st1)
          \<and> map_of (entries st1) = (map_of (entries st))(channelId ev \<mapsto> Text ?c)"
  proof
    assume "\<exists>st1. tracking ev [] st = (Fails [] StoreError, st1)
            \<and> (map_of (entries st1) = map_of (entries st)
               \<or> map_of (entries st) (channelId ev) = None
                 \<and> map_of (entries st1) = (map_of (entries st))(channelId ev \<mapsto> Text channel_default))"
    then obtain st1 where "tracking ev [] st = (Fails [] StoreError, st1)" by blast
    with assms(5) show ?thesis by (simp add: tracking_from_nil [of ev qs st])
  qed
  then obtain st1 where n: "tracking ev [] st = (Completes [?c], st1)"
    "map_of (entries st1) = (map_of (entries st))(channelId ev \<mapsto> Text ?c)" by blast
  have t: "tracking ev qs st =
      (emit_first ?c (fst (snapshots ev qs st1)), snd (snapshots ev qs st1))"
    by (simp add: tracking_from_nil [of ev qs st] n(1))
  from assms(5) obtain js' where js: "fst (snapshots ev qs st1) = Completes js'" "js = ?c # js'"
    unfolding t by (auto simp: emit_first_Completes_iff)
  have p: "map_of (entries st1) (uuid ev) = None \<or>
         (\<exists>q0. map_of (entries st1) (uuid ev) = Some (Text (snapshot_record ev q0)))"
    unfolding n(2) using assms(1,2) by simp
  note s = snapshots_Completes [OF p js(1)]
  show "js = ?c # map (snapshot_record ev) qs"
    using s js(2) by simp
  show "map_of (entries (snd (tracking ev qs st))) =
           (if qs = [] then (map_of (entries st))(channelId ev \<mapsto> Text ?c)
            else (map_of (entries st))(channelId ev \<mapsto> Text ?c,
                   uuid ev \<mapsto> Text (snapshot_record ev (last qs))))"
    unfolding t using s by (simp add: n(2))
qed

lemma tracking_nil_Fails:
  assumes "channelId ev \<noteq> uuid ev" "map_of (entries st) (uuid ev) = None"
    and "channel_before st (channelId ev) = Some (JObj kvs)"
    and "map_of kvs ''playlists'' = Some (JArr ps)"
    and "fst (tracking ev [] st) = Fails js e"
  shows "js = [] \<and> e = StoreError
       \<and> map_of (entries (snd (tracking ev [] st))) (uuid ev) = None
       \<and> (\<forall>k. k \<noteq> channelId ev \<longrightarrow>
             map_of (entries (snd (tracking ev [] st))) k = map_of (entries st) k)"
  using tracking_nil_cases [OF assms(3,4)] assms(1,2,5)
  by auto

lemma tracking_next_Fails:
  assumes "channelId ev \<noteq> uuid ev" "map_of (entries st) (uuid ev) = None"
    and "channel_before st (channelId ev) = Some (JObj kvs)"
    and "map_of kvs ''playlists'' = Some (JArr ps)"
    and "fst (tracking ev qs st) = Completes js0"
    and "fst (tracking ev (qs @ [q]) st) = Fails js e"
  shows "js = JObj (AList.update ''playlists'' (JArr (ps @ [JStr (uuid ev)])) kvs)
              # map (snapshot_record ev) qs \<and> e = StoreError
       \<and> map_of (entries (snd (tracking ev (qs @ [q]) st))) (channelId ev) =
           Some (Text (JObj (AList.update ''playlists'' (JArr (ps @ [JStr (uuid ev)])) kvs)))
       \<and> (if qs = []
          then map_of (entries (snd (tracking ev (qs @ [q]) st))) (uuid ev) = None
             \<or> map_of (entries (snd (tracking ev (qs @ [q]) st))) (uuid ev) =
                 Some (Text (snapshot_record ev []))
          else map_of (entries (snd (tracking ev (qs @ [q]) st))) (uuid ev) =
                 Some (Text (snapshot_record ev (last qs))))
       \<and> (\<forall>k. k \<noteq> channelId ev \<and> k \<noteq> uuid ev \<longrightarrow>
             map_of (entries (snd (tracking ev (qs @ [q]) st))) k = map_of (entries st) k)"
proof -
  let ?c = "JObj (AList.update ''playlists'' (JArr (ps @ [JStr (uuid ev)])) kvs)"
  obtain st1 where t: "tracking ev qs st = (Completes js0, st1)"
    using assms(5) by (cases "tracking ev qs st") auto
  note c = tracking_Completes [OF assms(1-5)]
  have m1: "map_of (entries st1) =
      (if qs = [] then (map_of (entries st))(channelId ev \<mapsto> Text ?c)
       else (map_of (entries st))(channelId ev \<mapsto> Text ?c,
              uuid ev \<mapsto> Text (snapshot_record ev (last qs))))"
    using c(2) by (simp add: t)
  have p: "map_of (entries st1) (uuid ev) = None \<or>
         (\<exists>q0. map_of (entries st1) (uuid ev) = Some (Text (snapshot_record ev q0)))"
    unfolding m1 using assms(1,2) by auto
  obtain r st2 where s: "snapshot ev q st1 = (r, st2)" by (cases "snapshot ev q st1")
  have a: "tracking ev (qs @ [q]) st =
      (foldr emit_first js0 (case r of Inl e \<Rightarrow> Fails [] e | Inr j \<Rightarrow> Completes [j]), st2)"
    by (cases r) (simp_all add: tracking_append [of ev qs "[q]" st] t s)
  from assms(6) obtain e' where r: "r = Inl e'"
    unfolding a by (cases r) (simp_all add: foldr_emit_first_Completes)
  from assms(6) have je: "js = js0" "e = e'"
    unfolding a r by (simp_all add: foldr_emit_first_Fails)
  from snapshot_cases [OF p, of q] s r
  have f: "e' = StoreError"
    "map_of (entries st2) = map_of (entries st1)
     \<or> map_of (entries st1) (uuid ev) = None
       \<and> map_of (entries st2) = (map_of (entries st1))(uuid ev \<mapsto> Text (snapshot_record ev []))"
    by auto
  have fin: "snd (tracking ev (qs @ [q]) st) = st2" by (simp add: a)
  show ?thesis
  proof (cases "qs = []")
    case True
    with f(2) m1 assms(1,2) c(1) je f(1) show ?thesis
      unfolding fin by auto
  next
    case False
    with m1 have "map_of (entries st1) (uuid ev) \<noteq> None" by simp
    with f(2) have "map_of (entries st2) = map_of (entries st1)" by blast
    with False m1 assms(1,2) c(1) je f(1) show ?thesis
      unfolding fin by auto
  qed
qed

section \<open>Sessions and the registry\<close>



text \<open>
  C2, as stated, fails. In the first run the resolver is still at work for a \<^verbatim>\<open>/play\<close>
  when \<^verbatim>\<open>/disconnect\<close> tears the session down; when the resolver then throws, the error
  is caught and logged, and no message reaches the channel. In the second run the
  initialisation of the player throws while the first command of the channel is handled:
  nothing catches the error, the subject of the channel stays registered without an
  observer, and the later commands of the channel, \<^verbatim>\<open>/disconnect\<close> among them, are
  dropped.
\<close>

theorem error_after_disconnect_only_logged:
  "snd (run init_state [Message play_msg, PlayerReady 0, Message disconnect_msg,
                        Resolved 0 (Threw ''Error: no result'')]) =
      [LogInfo ''Initializing new observer for: vc'', PlaylistInit 0, PlayerInit 0,
       Deliver 0 Disconnect PNull, ChannelSend ''tc'' ''Bye!'',
       Deliver 0 SendMessage (PString ''Bye!''),
       Completed 0 SendMessage, Completed 0 CurrentlyPlaying, Completed 0 NextItemInPlaylist,
       Completed 0 AddItemToQueue, Completed 0 AddNextItemToQueue, Completed 0 PrintQueueRequest,
       Completed 0 RemoveFromQueue, Completed 0 Disconnect, Completed 0 SetBassLevel,
       Completed 0 Seek,
       ObserverUnsubscribed 0, ChannelObserverCompleted 0, RegistryDeleted ''vc'',
       LogError ''Error: no result'']
   \<and> snd (run init_state [Message play_msg, PlayerFailed 0, Message play_msg,
                          Message disconnect_msg]) =
      [LogInfo ''Initializing new observer for: vc'', PlaylistInit 0, PlayerInit 0,
       UnhandledRejection]
   \<and> msgObservers (fst (run init_state [Message play_msg, PlayerFailed 0, Message play_msg,
                                        Message disconnect_msg])) ''vc'' = Some 0
   \<and> heap (fst (run init_state [Message play_msg, PlayerFailed 0, Message play_msg,
                                Message disconnect_msg])) 0 = Some (new_session 0 ''vc'' msg0)
   \<and> \<not> live (new_session 0 ''vc'' msg0)"
proof -
  have d: "content (msg disconnect_msg) = ''/disconnect''"
    by (simp add: disconnect_msg_def)
  have a1: "run init_state [Message play_msg, PlayerReady 0] =
      (one_session_resolving,
       [LogInfo ''Initializing new observer for: vc'', PlaylistInit 0, PlayerInit 0])"
    by (simp add: handle_msg_def play_msg_def msg0_def startsWith_def create_session_def deliver_def
      observer_next_def player_ready_def new_session_def initialised_def
      init_state_def one_session_def one_session_resolving_def Let_def)
  have r: "msgObservers one_session_resolving ''vc'' = Some 0"
    "heap one_session_resolving 0 = Some (initialised (new_session 0 ''vc'' msg0))"
    by (simp_all add: one_session_resolving_def one_session_def)
  have a2: "handle_msg one_session_resolving disconnect_msg =
     (one_session_resolving\<lparr>heap := (heap one_session_resolving)(0 \<mapsto>
          (player_disconnected (initialised (new_session 0 ''vc'' msg0)))
             \<lparr>completed := UNIV, observer_subscribed := False, channel_completed := True\<rparr>),
         msgObservers := (msgObservers one_session_resolving)(''vc'' := None)\<rparr>,
      Deliver 0 Disconnect PNull # teardown_effects (initialised (new_session 0 ''vc'' msg0)))"
    using deliver_disconnect [OF r opened_sample d]
    by (simp add: handle_msg_accepted [OF sample_accepted(3)] r initialised_def new_session_def)
  have a3: "snd (resolver_done
      (one_session_resolving\<lparr>heap := (heap one_session_resolving)(0 \<mapsto>
          (player_disconnected (initialised (new_session 0 ''vc'' msg0)))
             \<lparr>completed := UNIV, observer_subscribed := False, channel_completed := True\<rparr>),
         msgObservers := (msgObservers one_session_resolving)(''vc'' := None)\<rparr>) 0
      (Threw ''Error: no result'')) = [LogError ''Error: no result'']"
    by (simp add: resolver_done_def one_session_resolving_def one_session_def addItemToQueue_def
        send_message_def Let_def)
  have t: "teardown_effects (initialised (new_session 0 ''vc'' msg0)) =
      [ChannelSend ''tc'' ''Bye!'', Deliver 0 SendMessage (PString ''Bye!''),
       Completed 0 SendMessage, Completed 0 CurrentlyPlaying, Completed 0 NextItemInPlaylist,
       Completed 0 AddItemToQueue, Completed 0 AddNextItemToQueue, Completed 0 PrintQueueRequest,
       Completed 0 RemoveFromQueue, Completed 0 Disconnect, Completed 0 SetBassLevel,
       Completed 0 Seek,
       ObserverUnsubscribed 0, ChannelObserverCompleted 0, RegistryDeleted ''vc'']"
    by (simp add: teardown_effects_def initialised_def new_session_def env_subjects_def msg0_def)
  have runA: "snd (run init_state [Message play_msg, PlayerReady 0, Message disconnect_msg,
                        Resolved 0 (Threw ''Error: no result'')]) =
      [LogInfo ''Initializing new observer for: vc'', PlaylistInit 0, PlayerInit 0]
      @ (Deliver 0 Disconnect PNull # teardown_effects (initialised (new_session 0 ''vc'' msg0)))
      @ [LogError ''Error: no result'']"
  proof -
    have "run init_state ([Message play_msg, PlayerReady 0] @ [Message disconnect_msg,
                        Resolved 0 (Threw ''Error: no result'')]) =
        (let (st1, es1) = run init_state [Message play_msg, PlayerReady 0];
             (st2, es2) = run st1 [Message disconnect_msg, Resolved 0 (Threw ''Error: no result'')]
         in (st2, es1 @ es2))"
      by (simp add: case_prod_beta)
    then show ?thesis
      unfolding a1 by (simp add: a2 a3 case_prod_beta)
  qed
  have runB: "run init_state [Message play_msg, PlayerFailed 0, Message play_msg,
                          Message disconnect_msg] =
      (init_state\<lparr>msgObservers := [''vc'' \<mapsto> 0], heap := [0 \<mapsto> new_session 0 ''vc'' msg0],
                  next_id := 1\<rparr>,
       [LogInfo ''Initializing new observer for: vc'', PlaylistInit 0, PlayerInit 0,
        UnhandledRejection])"
    by (simp add: handle_msg_def play_msg_def disconnect_msg_def msg0_def startsWith_def
        create_session_def deliver_def observer_next_def player_failed_def new_session_def
        init_state_def Let_def)
  show ?thesis
    unfolding runA runB t
    by (simp add: live_def new_session_def)
qed

text \<open>
  C2, amended: in every state the handler reaches, when the resolver throws or finds nothing
  for a command, this is caught where the command is handled. A throw is logged; the error
  is sent to the channel as a message when the issuing session is live at that moment, and
  is not sent when the session has been torn down since the command arrived. Nothing else
  happens: the registry, the sessions of all channels and the calls waiting for a player
  are as they were, and no error escapes. A \<^verbatim>\<open>/play\<close> or \<^verbatim>\<open>/playnext\<close> for a live
  session does nothing but leave its call of the resolver waiting. A command from an author
  in no voice channel is answered with a message and changes nothing.
\<close>

theorem resolver_errors_stay_local:
  assumes "st = fst (run init_state evs)"
  shows "(\<forall>n i v cb. nth_opt (resolving st) n = Some (i, v, cb) \<longrightarrow> heap st i \<noteq> None)
       \<and> (\<forall>n i v cb s r. nth_opt (resolving st) n = Some (i, v, cb) \<and> heap st i = Some s \<longrightarrow>
             fst (resolver_done st n r) =
               st\<lparr>resolving := take n (resolving st) @ drop (Suc n) (resolving st)\<rparr>
           \<and> (\<forall>e. r = Threw e \<longrightarrow>
                 snd (resolver_done st n r) =
                   LogError e #
                   (if live s
                    then [ChannelSend (reply_channel s) (''Unable to add song to playlist: '' @ e),
                          Deliver i SendMessage
                            (PString (''Unable to add song to playlist: '' @ e))]
                    else []))
           \<and> (r = NotFound \<longrightarrow>
                 snd (resolver_done st n r) =
                   (if live s
                    then [ChannelSend (reply_channel s)
                            (''Unable to find result for: '' @ content (msg v)),
                          Deliver i SendMessage
                            (PString (''Unable to find result for: '' @ content (msg v)))]
                    else []))
           \<and> (\<forall>e \<in> set (snd (resolver_done st n r)). \<not> creation_or_fault e))
       \<and> (\<forall>v ch i s. accepted v ch \<and> msgObservers st ch = Some i \<and> heap st i = Some s \<and> live s
              \<and> startsWith (content (msg v)) ''/play'' \<longrightarrow>
             handle_msg st v =
               (st\<lparr>resolving := resolving st @
                   [(i, v, if startsWith (content (msg v)) ''/playnext'' then AddNextItemToQueue
                           else AddItemToQueue)]\<rparr>, []))
       \<and> (\<forall>v. \<not> author_bot (msg v) \<and> startsWith (content (msg v)) ''/''
              \<and> (voice_channel (msg v) = None \<or> voice_channel (msg v) = Some []) \<longrightarrow>
            handle_msg st v = (st, [ChannelSend (text_channel (msg v)) no_channel_text]))"
proof -
  have inv: "registry_inv st"
    unfolding assms by (rule reachable_inv)
  have c1: "\<forall>n i v cb. nth_opt (resolving st) n = Some (i, v, cb) \<longrightarrow> heap st i \<noteq> None"
    using registry_invD(4) [OF inv nth_opt_Some] by fastforce
  have c2: "\<forall>n i v cb s r. nth_opt (resolving st) n = Some (i, v, cb) \<and> heap st i = Some s \<longrightarrow>
             fst (resolver_done st n r) =
               st\<lparr>resolving := take n (resolving st) @ drop (Suc n) (resolving st)\<rparr>
           \<and> (\<forall>e. r = Threw e \<longrightarrow>
                 snd (resolver_done st n r) =
                   LogError e #
                   (if live s
                    then [ChannelSend (reply_channel s) (''Unable to add song to playlist: '' @ e),
                          Deliver i SendMessage
                            (PString (''Unable to add song to playlist: '' @ e))]
                    else []))
           \<and> (r = NotFound \<longrightarrow>
                 snd (resolver_done st n r) =
                   (if live s
                    then [ChannelSend (reply_channel s)
                            (''Unable to find result for: '' @ content (msg v)),
                          Deliver i SendMessage
                            (PString (''Unable to find result for: '' @ content (msg v)))]
                    else []))
           \<and> (\<forall>e \<in> set (snd (resolver_done st n r)). \<not> creation_or_fault e)"
  proof (intro allI impI)
    fix n i cb s r and v :: msg_event
    assume a: "nth_opt (resolving st) n = Some (i, v, cb) \<and> heap st i = Some s"
    then have w: "nth_opt (resolving st) n = Some (i, v, cb)" and h: "heap st i = Some s"
      by simp_all
    note ws = waiting_session [OF inv w h]
    note rd = resolver_done_waiting [OF w ws(1), of r]
    have e: "snd (resolver_done st n r) = fst (snd (addItemToQueue r s v cb))"
      unfolding rd(2) by (simp add: h)
    have p2: "\<forall>e. r = Threw e \<longrightarrow>
                 snd (resolver_done st n r) =
                   LogError e #
                   (if live s
                    then [ChannelSend (reply_channel s) (''Unable to add song to playlist: '' @ e),
                          Deliver i SendMessage
                            (PString (''Unable to add song to playlist: '' @ e))]
                    else [])"
      unfolding e using ws(2,3) by (simp add: addItemToQueue_def send_message_def)
    have p3: "r = NotFound \<longrightarrow>
                 snd (resolver_done st n r) =
                   (if live s
                    then [ChannelSend (reply_channel s)
                            (''Unable to find result for: '' @ content (msg v)),
                          Deliver i SendMessage
                            (PString (''Unable to find result for: '' @ content (msg v)))]
                    else [])"
      unfolding e using ws(2,3) by (simp add: addItemToQueue_def send_message_def)
    have p4: "\<forall>e \<in> set (snd (resolver_done st n r)). \<not> creation_or_fault e"
      unfolding e by (rule addItemToQueue_effects)
    from rd(1) p2 p3 p4
    show "fst (resolver_done st n r) =
               st\<lparr>resolving := take n (resolving st) @ drop (Suc n) (resolving st)\<rparr>
           \<and> (\<forall>e. r = Threw e \<longrightarrow>
                 snd (resolver_done st n r) =
                   LogError e #
                   (if live s
                    then [ChannelSend (reply_channel s) (''Unable to add song to playlist: '' @ e),
                          Deliver i SendMessage
                            (PString (''Unable to add song to playlist: '' @ e))]
                    else []))
           \<and> (r = NotFound \<longrightarrow>
                 snd (resolver_done st n r) =
                   (if live s
                    then [ChannelSend (reply_channel s)
                            (''Unable to find result for: '' @ content (msg v)),
                          Deliver i SendMessage
                            (PString (''Unable to find result for: '' @ content (msg v)))]
                    else []))
           \<and> (\<forall>e \<in> set (snd (resolver_done st n r)). \<not> creation_or_fault e)"
      by (intro conjI)
  qed
  have c3: "\<forall>v ch i s. accepted v ch \<and> msgObservers st ch = Some i \<and> heap st i = Some s \<and> live s
              \<and> startsWith (content (msg v)) ''/play'' \<longrightarrow>
             handle_msg st v =
               (st\<lparr>resolving := resolving st @
                   [(i, v, if startsWith (content (msg v)) ''/playnext'' then AddNextItemToQueue
                           else AddItemToQueue)]\<rparr>, [])"
  proof (intro allI impI)
    fix v ch i s
    assume a: "accepted v ch \<and> msgObservers st ch = Some i \<and> heap st i = Some s \<and> live s
              \<and> startsWith (content (msg v)) ''/play''"
    then have acc: "accepted v ch" and r: "msgObservers st ch = Some i" and h: "heap st i = Some s"
      and l: "live s" and p: "startsWith (content (msg v)) ''/play''" by simp_all
    have o: "observer_next s v =
        (s, [], False, Some (if startsWith (content (msg v)) ''/playnext'' then AddNextItemToQueue
                             else AddItemToQueue))"
      using l p by (simp add: observer_next_def live_def)
    have "(heap st)(i \<mapsto> s) = heap st"
      using h by (simp add: fun_upd_idem)
    then show "handle_msg st v =
               (st\<lparr>resolving := resolving st @
                   [(i, v, if startsWith (content (msg v)) ''/playnext'' then AddNextItemToQueue
                           else AddItemToQueue)]\<rparr>, [])"
      using r h by (simp add: handle_msg_accepted [OF acc] deliver_def o)
  qed
  have c4: "\<forall>v. \<not> author_bot (msg v) \<and> startsWith (content (msg v)) ''/''
              \<and> (voice_channel (msg v) = None \<or> voice_channel (msg v) = Some []) \<longrightarrow>
            handle_msg st v = (st, [ChannelSend (text_channel (msg v)) no_channel_text])"
    by (auto simp: handle_msg_def)
  show ?thesis
    by (intro conjI) (rule c1 c2 c3 c4)+
qed

theorem resolver_errors_stay_local_witness:
  "one_session_resolving = fst (run init_state [Message play_msg, PlayerReady 0])
   \<and> nth_opt (resolving one_session_resolving) 0 = Some (0, play_msg, AddItemToQueue)
   \<and> heap one_session_resolving 0 = Some (initialised (new_session 0 ''vc'' msg0))
   \<and> live (initialised (new_session 0 ''vc'' msg0))
   \<and> fst (resolver_done one_session_resolving 0 (Threw ''Error: no result'')) =
        one_session_resolving\<lparr>resolving := []\<rparr>
   \<and> snd (resolver_done one_session_resolving 0 (Threw ''Error: no result'')) =
        [LogError ''Error: no result'',
         ChannelSend ''tc'' ''Unable to add song to playlist: Error: no result'',
         Deliver 0 SendMessage (PString ''Unable to add song to playlist: Error: no result'')]
   \<and> snd (resolver_done one_session_resolving 0 NotFound) =
        [ChannelSend ''tc'' ''Unable to find result for: /play x'',
         Deliver 0 SendMessage (PString ''Unable to find result for: /play x'')]
   \<and> accepted play_msg ''vc'' \<and> msgObservers one_session_resolving ''vc'' = Some 0
   \<and> startsWith (content (msg play_msg)) ''/play''
   \<and> handle_msg one_session_resolving play_msg =
        (one_session_resolving\<lparr>resolving :=
           [(0, play_msg, AddItemToQueue), (0, play_msg, AddItemToQueue)]\<rparr>, [])
   \<and> \<not> author_bot (msg no_voice_msg) \<and> startsWith (content (msg no_voice_msg)) ''/''
   \<and> voice_channel (msg no_voice_msg) = None
   \<and> handle_msg one_session_resolving no_voice_msg =
        (one_session_resolving, [ChannelSend ''tc'' no_channel_text])"
proof -
  let ?s = "initialised (new_session 0 ''vc'' msg0)"
  note t = resolver_errors_stay_local [OF one_session_resolving_reached]
  have w: "nth_opt (resolving one_session_resolving) 0 = Some (0, play_msg, AddItemToQueue)"
    "heap one_session_resolving 0 = Some ?s"
    "msgObservers one_session_resolving ''vc'' = Some 0"
    by (simp_all add: one_session_resolving_def one_session_def)
  have l: "live ?s" by (rule live_opened [OF opened_sample])
  have v: "reply_channel ?s = ''tc''" "content (msg play_msg) = ''/play x''"
    "startsWith (content (msg play_msg)) ''/play''"
    "\<not> startsWith (content (msg play_msg)) ''/playnext''"
    by (simp_all add: initialised_def new_session_def msg0_def play_msg_def startsWith_def)
  note t2 = t [THEN conjunct2, THEN conjunct1, rule_format, OF conjI [OF w(1) w(2)]]
  have a1: "fst (resolver_done one_session_resolving 0 (Threw ''Error: no result'')) =
        one_session_resolving\<lparr>resolving := []\<rparr>"
    using t2 [of "Threw ''Error: no result''", THEN conjunct1]
    by (simp add: one_session_resolving_def)
  have a2: "snd (resolver_done one_session_resolving 0 (Threw ''Error: no result'')) =
        [LogError ''Error: no result'',
         ChannelSend ''tc'' ''Unable to add song to playlist: Error: no result'',
         Deliver 0 SendMessage (PString ''Unable to add song to playlist: Error: no result'')]"
    using t2 [of "Threw ''Error: no result''", THEN conjunct2, THEN conjunct1, rule_format, OF refl] l
    by (simp add: v)
  have a3: "snd (resolver_done one_session_resolving 0 NotFound) =
        [ChannelSend ''tc'' ''Unable to find result for: /play x'',
         Deliver 0 SendMessage (PString ''Unable to find result for: /play x'')]"
    using t2 [of NotFound, THEN conjunct2, THEN conjunct2, THEN conjunct1, rule_format, OF refl] l
    by (simp add: v)
  have a4: "handle_msg one_session_resolving play_msg =
        (one_session_resolving\<lparr>resolving :=
           [(0, play_msg, AddItemToQueue), (0, play_msg, AddItemToQueue)]\<rparr>, [])"
    using t [THEN conjunct2, THEN conjunct2, THEN conjunct1, rule_format,
        OF conjI [OF sample_accepted(1) conjI [OF w(3) conjI [OF w(2) conjI [OF l v(3)]]]]]
    by (simp add: v(4)) (simp add: one_session_resolving_def)
  have n: "\<not> author_bot (msg no_voice_msg)" "startsWith (content (msg no_voice_msg)) ''/''"
    "voice_channel (msg no_voice_msg) = None"
    by (simp_all add: no_voice_msg_def msg0_def startsWith_def)
  have a5: "handle_msg one_session_resolving no_voice_msg =
        (one_session_resolving, [ChannelSend ''tc'' no_channel_text])"
    using t [THEN conjunct2, THEN conjunct2, THEN conjunct2, rule_format,
        OF conjI [OF n(1) conjI [OF n(2) disjI1 [OF n(3)]]]]
    by (simp add: no_voice_msg_def msg0_def)
  show ?thesis
    by (intro conjI)
       (rule one_session_resolving_reached w l a1 a2 a3 sample_accepted(1) v(3) a4 n a5)+
qed

section \<open>Disconnecting\<close>

text \<open>
  C3: the teardown that \<^verbatim>\<open>/disconnect\<close> starts on a registered session stops the audio
  player, disconnects the voice connection, says goodbye, completes each subject of the
  environment once, unsubscribes the command observer, completes the channel's subject and
  deletes the registry entry, in this order; afterwards the player of the session is
  disconnected and the session reacts to no command and to no emission, so no step runs
  again.
\<close>

theorem disconnect_teardown_order:
  assumes "msgObservers st ch = Some i" "heap st i = Some s" "opened s" "chan s = ch"
    and "accepted v ch" "content (msg v) = ''/disconnect''"
  shows "case handle_msg st v of (st', es) \<Rightarrow>
      with_player es =
        [AudioPlayerStop (sid s), VoiceConnectionDisconnect (sid s),
         ChannelSend (reply_channel s) ''Bye!'', Deliver (sid s) SendMessage (PString ''Bye!'')]
        @ map (Completed (sid s)) env_subjects
        @ [ObserverUnsubscribed (sid s), ChannelObserverCompleted (sid s), RegistryDeleted ch]
      \<and> msgObservers st' ch = None
      \<and> (\<exists>s'. heap st' i = Some s' \<and> torn_down s' \<and> \<not> player_connected s'
            \<and> (\<forall>w. observer_next s' w = (s', [], False, None))
            \<and> (\<forall>subj p. env_next s' subj p = (s', [], False)))"
proof -
  let ?t = "(player_disconnected s)\<lparr>completed := UNIV, observer_subscribed := False,
              channel_completed := True\<rparr>"
  note t = torn_down_after [of s]
  have h: "handle_msg st v =
      (st\<lparr>heap := (heap st)(i \<mapsto> ?t), msgObservers := (msgObservers st)(chan s := None)\<rparr>,
       Deliver (sid s) Disconnect PNull # teardown_effects s)"
    using assms(1) deliver_disconnect [OF assms(1,2,3,6)]
    by (simp add: handle_msg_accepted [OF assms(5)])
  show ?thesis
    unfolding h prod.case with_player_teardown
    using t(1,2) torn_down_silent [OF t(1)] assms(4)
    by (simp add: PlayerImpl_disconnect_def teardown_effects_def)
qed

theorem disconnect_teardown_order_witness:
  "msgObservers one_session ''vc'' = Some 0
   \<and> heap one_session 0 = Some (initialised (new_session 0 ''vc'' msg0))
   \<and> opened (initialised (new_session 0 ''vc'' msg0))
   \<and> chan (initialised (new_session 0 ''vc'' msg0)) = ''vc''
   \<and> accepted disconnect_msg ''vc'' \<and> content (msg disconnect_msg) = ''/disconnect''
   \<and> with_player (snd (handle_msg one_session disconnect_msg)) =
        [AudioPlayerStop 0, VoiceConnectionDisconnect 0,
         ChannelSend ''tc'' ''Bye!'', Deliver 0 SendMessage (PString ''Bye!''),
         Completed 0 SendMessage, Completed 0 CurrentlyPlaying, Completed 0 NextItemInPlaylist,
         Completed 0 AddItemToQueue, Completed 0 AddNextItemToQueue, Completed 0 PrintQueueRequest,
         Completed 0 RemoveFromQueue, Completed 0 Disconnect, Completed 0 SetBassLevel,
         Completed 0 Seek,
         ObserverUnsubscribed 0, ChannelObserverCompleted 0, RegistryDeleted ''vc'']
   \<and> msgObservers (fst (handle_msg one_session disconnect_msg)) ''vc'' = None"
proof -
  have h: "msgObservers one_session ''vc'' = Some 0"
    "heap one_session 0 = Some (initialised (new_session 0 ''vc'' msg0))"
    "opened (initialised (new_session 0 ''vc'' msg0))"
    "chan (initialised (new_session 0 ''vc'' msg0)) = ''vc''"
    "accepted disconnect_msg ''vc''" "content (msg disconnect_msg) = ''/disconnect''"
    by (simp_all add: one_session_def opened_def new_session_def initialised_def accepted_def
        disconnect_msg_def msg0_def startsWith_def)
  have v: "sid (initialised (new_session 0 ''vc'' msg0)) = 0"
    "reply_channel (initialised (new_session 0 ''vc'' msg0)) = ''tc''"
    by (simp_all add: new_session_def initialised_def msg0_def)
  show ?thesis
    using h disconnect_teardown_order [OF h]
    unfolding v
    by (simp add: env_subjects_def case_prod_beta)
qed

text \<open>
  C8: a \<^verbatim>\<open>/disconnect\<close> for a channel that has no session is meant to do nothing more
  than acknowledge the command: no player is touched and no goodbye is sent. The handler
  does otherwise, from the initial state (session never created) and after a \<^verbatim>\<open>/play\<close>
  and a \<^verbatim>\<open>/disconnect\<close> (session already terminated) alike: it creates a session with
  its playlist and player and, once the initialisation of the player has returned, sends
  the goodbye and tears the new session down. No session of the channel is registered
  afterwards.
\<close>

theorem disconnect_without_session_says_bye:
  "snd (run init_state [Message disconnect_msg, PlayerReady 0]) =
      [LogInfo ''Initializing new observer for: vc'', PlaylistInit 0, PlayerInit 0,
       Deliver 0 Disconnect PNull, ChannelSend ''tc'' ''Bye!'',
       Deliver 0 SendMessage (PString ''Bye!''),
       Completed 0 SendMessage, Completed 0 CurrentlyPlaying, Completed 0 NextItemInPlaylist,
       Completed 0 AddItemToQueue, Completed 0 AddNextItemToQueue, Completed 0 PrintQueueRequest,
       Completed 0 RemoveFromQueue, Completed 0 Disconnect, Completed 0 SetBassLevel,
       Completed 0 Seek,
       ObserverUnsubscribed 0, ChannelObserverCompleted 0, RegistryDeleted ''vc'']
   \<and> msgObservers (fst (run init_state [Message play_msg, PlayerReady 0, Resolved 0 (Found song),
                                        Message disconnect_msg])) ''vc'' = None
   \<and> snd (run (fst (run init_state [Message play_msg, PlayerReady 0, Resolved 0 (Found song),
                                    Message disconnect_msg]))
             [Message disconnect_msg, PlayerReady 1]) =
      [LogInfo ''Initializing new observer for: vc'', PlaylistInit 1, PlayerInit 1,
       Deliver 1 Disconnect PNull, ChannelSend ''tc'' ''Bye!'',
       Deliver 1 SendMessage (PString ''Bye!''),
       Completed 1 SendMessage, Completed 1 CurrentlyPlaying, Completed 1 NextItemInPlaylist,
       Completed 1 AddItemToQueue, Completed 1 AddNextItemToQueue, Completed 1 PrintQueueRequest,
       Completed 1 RemoveFromQueue, Completed 1 Disconnect, Completed 1 SetBassLevel,
       Completed 1 Seek,
       ObserverUnsubscribed 1, ChannelObserverCompleted 1, RegistryDeleted ''vc'']"
proof -
  have c: "content (msg disconnect_msg) = ''/disconnect''"
    by (simp add: disconnect_msg_def)
  have t: "teardown_effects (initialised (new_session k ''vc'' (msg disconnect_msg))) =
      [ChannelSend ''tc'' ''Bye!'', Deliver k SendMessage (PString ''Bye!''),
       Completed k SendMessage, Completed k CurrentlyPlaying, Completed k NextItemInPlaylist,
       Completed k AddItemToQueue, Completed k AddNextItemToQueue, Completed k PrintQueueRequest,
       Completed k RemoveFromQueue, Completed k Disconnect, Completed k SetBassLevel,
       Completed k Seek,
       ObserverUnsubscribed k, ChannelObserverCompleted k, RegistryDeleted ''vc'']" for k
    by (simp add: teardown_effects_def new_session_def initialised_def env_subjects_def
        disconnect_msg_def msg0_def)
  have fresh: "snd (run st [Message disconnect_msg, PlayerReady (next_id st)]) =
      [LogInfo ''Initializing new observer for: vc'', PlaylistInit (next_id st),
       PlayerInit (next_id st), Deliver (next_id st) Disconnect PNull]
      @ teardown_effects (initialised (new_session (next_id st) ''vc'' (msg disconnect_msg)))"
    if n: "msgObservers st ''vc'' = None" and p: "map_of (initialising st) (next_id st) = None"
    for st
  proof -
    let ?i = "next_id st"
    let ?st1 = "fst (create_session st ''vc'' disconnect_msg)"
    let ?s = "new_session ?i ''vc'' (msg disconnect_msg)"
    have h1: "handle_msg st disconnect_msg = create_session st ''vc'' disconnect_msg"
      using n by (simp add: handle_msg_accepted [OF sample_accepted(3)])
    have f: "map_of (initialising ?st1) ?i = Some (''vc'', disconnect_msg)"
      "heap ?st1 ?i = Some ?s"
      using p by (simp_all add: create_session_def Let_def map_add_def)
    let ?st2 = "?st1\<lparr>initialising := AList.delete ?i (initialising ?st1),
                      heap := (heap ?st1)(?i \<mapsto> initialised ?s)\<rparr>"
    have pr: "player_ready ?st1 ?i = deliver ?st2 ''vc'' disconnect_msg"
      by (simp add: player_ready_def f)
    have r2: "msgObservers ?st2 ''vc'' = Some ?i" "heap ?st2 ?i = Some (initialised ?s)"
      by (simp_all add: create_session_def Let_def)
    have sd: "sid (initialised ?s) = ?i"
      by (simp add: initialised_def new_session_def)
    have d: "snd (deliver ?st2 ''vc'' disconnect_msg) =
        Deliver ?i Disconnect PNull # teardown_effects (initialised ?s)"
      unfolding deliver_disconnect [OF r2 opened_sample c] sd by simp
    show ?thesis
      by (simp add: h1 pr d case_prod_beta) (simp add: create_session_def Let_def)
  qed
  have i: "msgObservers init_state ''vc'' = None" "next_id init_state = 0"
    "map_of (initialising init_state) (next_id init_state) = None"
    by (simp_all add: init_state_def)
  have d2: "handle_msg one_session disconnect_msg =
     (one_session\<lparr>heap := (heap one_session)(0 \<mapsto>
          (player_disconnected (initialised (new_session 0 ''vc'' msg0)))
             \<lparr>completed := UNIV, observer_subscribed := False, channel_completed := True\<rparr>),
         msgObservers := (msgObservers one_session)(''vc'' := None)\<rparr>,
      Deliver 0 Disconnect PNull # teardown_effects (initialised (new_session 0 ''vc'' msg0)))"
    using deliver_disconnect [OF one_session_registry(1,3) opened_sample c]
    by (simp add: handle_msg_accepted [OF sample_accepted(3)] one_session_registry
        initialised_def new_session_def)
  have r: "fst (run init_state [Message play_msg, PlayerReady 0, Resolved 0 (Found song),
                                Message disconnect_msg]) =
      fst (handle_msg one_session disconnect_msg)"
  proof -
    have "run init_state ([Message play_msg, PlayerReady 0, Resolved 0 (Found song)] @
                          [Message disconnect_msg]) =
        (let (st1, es1) = run init_state [Message play_msg, PlayerReady 0, Resolved 0 (Found song)];
             (st2, es2) = run st1 [Message disconnect_msg]
         in (st2, es1 @ es2))"
      by (simp add: case_prod_beta)
    then show ?thesis
      using one_session_reached by (simp add: case_prod_beta)
  qed
  have a: "msgObservers (fst (handle_msg one_session disconnect_msg)) ''vc'' = None"
    "next_id (fst (handle_msg one_session disconnect_msg)) = 1"
    "map_of (initialising (fst (handle_msg one_session disconnect_msg)))
       (next_id (fst (handle_msg one_session disconnect_msg))) = None"
    unfolding d2 by (simp_all add: new_session_def initialised_def one_session_def)
  show ?thesis
    unfolding r
    using fresh [OF i(1,3)] fresh [OF a(1,3)] a(1)
    by (simp add: t i(2) a(2))
qed

section \<open>Message filtering\<close>

text \<open>
  C10: a message written by a bot, and a message whose content does not start with a slash,
  is ignored entirely: the state is the one before (no session is created for the channel)
  and nothing is done (no command is dispatched, no reply is sent).
\<close>

theorem bot_and_plain_messages_ignored:
  "author_bot (msg v) \<or> \<not> startsWith (content (msg v)) ''/'' \<Longrightarrow>
   handle_msg st v = (st, []) \<and> step st (Message v) = (st, [])"
  by (auto simp: handle_msg_def)

theorem bot_and_plain_messages_ignored_witness:
  "(author_bot (msg \<lparr>msg = \<lparr>author_bot = True, content = ''/test'', voice_channel = Some ''vc'',
        text_channel = ''tc''\<rparr>, pool = 0\<rparr>)
    \<or> \<not> startsWith (content (msg \<lparr>msg = \<lparr>author_bot = True, content = ''/test'',
        voice_channel = Some ''vc'', text_channel = ''tc''\<rparr>, pool = 0\<rparr>)) ''/'')
   \<and> handle_msg init_state
        \<lparr>msg = \<lparr>author_bot = True, content = ''/test'', voice_channel = Some ''vc'',
                text_channel = ''tc''\<rparr>, pool = 0\<rparr> = (init_state, [])
   \<and> (author_bot (msg \<lparr>msg = \<lparr>author_bot = False, content = ''test'', voice_channel = Some ''vc'',
        text_channel = ''tc''\<rparr>, pool = 0\<rparr>)
    \<or> \<not> startsWith (content (msg \<lparr>msg = \<lparr>author_bot = False, content = ''test'',
        voice_channel = Some ''vc'', text_channel = ''tc''\<rparr>, pool = 0\<rparr>)) ''/'')
   \<and> handle_msg init_state
        \<lparr>msg = \<lparr>author_bot = False, content = ''test'', voice_channel = Some ''vc'',
                text_channel = ''tc''\<rparr>, pool = 0\<rparr> = (init_state, [])"
  using bot_and_plain_messages_ignored [of "\<lparr>msg = \<lparr>author_bot = True, content = ''/test'',
          voice_channel = Some ''vc'', text_channel = ''tc''\<rparr>, pool = 0\<rparr>" init_state]
        bot_and_plain_messages_ignored [of "\<lparr>msg = \<lparr>author_bot = False, content = ''test'',
          voice_channel = Some ''vc'', text_channel = ''tc''\<rparr>, pool = 0\<rparr>" init_state]
  by (simp add: startsWith_def)

section \<open>Seeking\<close>

text \<open>
  C9: for a \<^verbatim>\<open>/seek\<close> command whose argument is \<open>minutes:seconds\<close>, the offset
  delivered on the seek subject is \<open>minutes * 60 + seconds\<close>, and for an argument that is
  a plain number it is that number; both in the command observer of connectionHandler.ts
  and in \<^verbatim>\<open>Seek.handleMessage\<close>. Minutes, seconds and the plain number are decimal digit
  strings whose values a double holds exactly.
\<close>

theorem seek_offset_delivered:
  assumes "m \<noteq> []" "list_all is_digit m" "s \<noteq> []" "list_all is_digit s"
    and "int (decimal_value m) * 60 + int (decimal_value s) \<le> max_exact"
    and "n \<noteq> []" "list_all is_digit n" "int (decimal_value n) \<le> max_exact"
    and "opened ses"
  shows "observer_next ses \<lparr>msg = mm\<lparr>content := ''/seek '' @ m @ '':'' @ s\<rparr>, pool = p\<rparr> =
           (ses, [Deliver (sid ses) Seek
                    (PNumber (Exact (int (decimal_value m) * 60 + int (decimal_value s))))],
            False, None)
       \<and> observer_next ses \<lparr>msg = mm\<lparr>content := ''/seek '' @ n\<rparr>, pool = p\<rparr> =
           (ses, [Deliver (sid ses) Seek (PNumber (Exact (int (decimal_value n))))], False, None)
       \<and> Seek_handleMessage ses (mm\<lparr>content := ''/seek '' @ m @ '':'' @ s\<rparr>) =
           (True, [Deliver (sid ses) Seek
                     (PNumber (Exact (int (decimal_value m) * 60 + int (decimal_value s))))])
       \<and> Seek_handleMessage ses (mm\<lparr>content := ''/seek '' @ n\<rparr>) =
           (True, [Deliver (sid ses) Seek (PNumber (Exact (int (decimal_value n))))])"
  using observer_next_seek [OF assms(9) seek_offset_minutes_seconds [OF assms(1-5)]]
    observer_next_seek [OF assms(9) seek_offset_plain [OF assms(6-8)]]
    Seek_handleMessage_seek [OF assms(9) seek_offset_minutes_seconds [OF assms(1-5)]]
    Seek_handleMessage_seek [OF assms(9) seek_offset_plain [OF assms(6-8)]]
  by simp

theorem seek_offset_delivered_witness:
  "''1'' \<noteq> [] \<and> list_all is_digit ''1'' \<and> ''30'' \<noteq> [] \<and> list_all is_digit ''30''
   \<and> int (decimal_value ''1'') * 60 + int (decimal_value ''30'') \<le> max_exact
   \<and> ''90'' \<noteq> [] \<and> list_all is_digit ''90'' \<and> int (decimal_value ''90'') \<le> max_exact
   \<and> opened (initialised (new_session 0 ''vc'' msg0))
   \<and> observer_next (initialised (new_session 0 ''vc'' msg0))
        \<lparr>msg = msg0\<lparr>content := ''/seek 1:30''\<rparr>, pool = 0\<rparr> =
        (initialised (new_session 0 ''vc'' msg0), [Deliver 0 Seek (PNumber (Exact 90))], False, None)
   \<and> observer_next (initialised (new_session 0 ''vc'' msg0))
        \<lparr>msg = msg0\<lparr>content := ''/seek 90''\<rparr>, pool = 0\<rparr> =
        (initialised (new_session 0 ''vc'' msg0), [Deliver 0 Seek (PNumber (Exact 90))], False, None)
   \<and> Seek_handleMessage (initialised (new_session 0 ''vc'' msg0)) (msg0\<lparr>content := ''/seek 1:30''\<rparr>) =
        (True, [Deliver 0 Seek (PNumber (Exact 90))])
   \<and> Seek_handleMessage (initialised (new_session 0 ''vc'' msg0)) (msg0\<lparr>content := ''/seek 90''\<rparr>) =
        (True, [Deliver 0 Seek (PNumber (Exact 90))])"
proof -
  have h: "''1'' \<noteq> []" "list_all is_digit ''1''" "''30'' \<noteq> []" "list_all is_digit ''30''"
    "int (decimal_value ''1'') * 60 + int (decimal_value ''30'') \<le> max_exact"
    "''90'' \<noteq> []" "list_all is_digit ''90''" "int (decimal_value ''90'') \<le> max_exact"
    "opened (initialised (new_session 0 ''vc'' msg0))"
    by (simp_all add: is_digit_def decimal_value_def max_exact_def opened_def new_session_def
        initialised_def)
  have v: "int (decimal_value ''1'') * 60 + int (decimal_value ''30'') = 90"
    "int (decimal_value ''90'') = 90" "sid (initialised (new_session 0 ''vc'' msg0)) = 0"
    by (simp_all add: decimal_value_def new_session_def initialised_def)
  show ?thesis
    using h seek_offset_delivered [OF h, of msg0 0]
    unfolding v by simp
qed

section \<open>Backup and restore\<close>

text \<open>
  C5: every record of the store is meant to go to the channels or to the playlists of the
  payload, and a record with another tag is meant to make the backup fail. backupV1 does
  otherwise on the store that holds a channel record and a record tagged \<open>track\<close>: its
  promise resolves, with a payload that holds the channel record and lacks the other
  record, and the error that names the unknown object is thrown outside the promise. The
  store is left as it was.
\<close>

theorem backup_drops_unknown_record:
  "backupV1 unknown_store =
     ((Some \<lparr>channels = [(''c1'', sample_channel)], playlists = []\<rparr>,
       [UnknownObject (JObj [meta ''track''])]), unknown_store)
   \<and> entries unknown_store =
       [(''c1'', Text sample_channel), (''t1'', Text (JObj [meta ''track'']))]
   \<and> isChannel (JObj [meta ''track'']) = Inr False
   \<and> isPlaylist (JObj [meta ''track'']) = Inr False"
  by (simp add: backupV1_def store_backup_def tick_def unknown_store_def backup_next_def
      sample_channel_def isChannel_def isPlaylist_def has_tag_def meta_def)



section \<open>Tracking a playlist\<close>

text \<open>
  C6, as stated, fails. In the first run the store fails once, while the first emission of
  the queue is handled; the error is caught and the stream ends, so the second emission,
  during which no store operation fails, is not persisted. In the second run no store
  operation fails, but the channel's record has no list of playlists: appending the new
  id throws, the error is caught, and no emission is persisted.
\<close>

theorem trackPlaylist_stops_after_error:
  "fst (trackPlaylist report_error sample_event [[sample_track], [sample_track]] flaky_store) =
     Completes
       [TrackingEvent (JObj [meta ''channel'', (''playlists'', JArr [JStr ''u1'', JStr ''u2''])]),
        Handled StoreError]
   \<and> faults (snd (trackPlaylist report_error sample_event [[sample_track], [sample_track]] flaky_store)) = []
   \<and> map_of (entries (snd (trackPlaylist report_error sample_event [[sample_track], [sample_track]]
         flaky_store))) (uuid sample_event) \<noteq>
       Some (Text (snapshot_record sample_event [sample_track]))
   \<and> fst (trackPlaylist report_error sample_event [[sample_track]] bare_channel_store) =
       Completes [Handled TypeError]
   \<and> map_of (entries (snd (trackPlaylist report_error sample_event [[sample_track]]
         bare_channel_store))) (uuid sample_event) \<noteq>
       Some (Text (snapshot_record sample_event [sample_track]))"
  by (simp add: trackPlaylist_def tracking_def tick_def flaky_store_def createPlaylist_def
      getOrCreate_def repo_get_def repo_put_def store_get_def store_put_def sample_event_def
      sample_channel_def meta_def JSON_stringify_def snapshot_def report_error_def
      bare_channel_store_def)

text \<open>
  C6, amended: for a new playlist id and a channel record that is absent or has a list of
  playlists, whichever store operations fail. As long as the pipeline has raised no error,
  trackPlaylist has stored the channel record with the new id appended once to its
  playlists and then, for every emission of the queue so far, has stored under the new id
  the record holding all tracks of that queue; the results come in that order and no other
  key changes. When no store operation fails, no error is raised. The first error is a
  failed store operation. When it comes with an emission of the queue, the channel record
  and the snapshot of the emission before stay as they were stored (when it comes with
  the first emission, the new id holds nothing or the snapshot without tracks); when it
  comes before, no snapshot is stored. After the first error the stream has ended: later
  emissions change neither the results nor the store.
\<close>

theorem trackPlaylist_until_first_error:
  assumes "channelId ev \<noteq> uuid ev" "map_of (entries st) (uuid ev) = None"
    and "channel_before st (channelId ev) = Some (JObj kvs)"
    and "map_of kvs ''playlists'' = Some (JArr ps)"
  shows "(\<forall>qs js. fst (tracking ev qs st) = Completes js \<longrightarrow>
            fst (trackPlaylist errorHandler ev qs st) =
              Completes (TrackingEvent (channel_with kvs ps (uuid ev))
                         # map (\<lambda>q. TrackingEvent (snapshot_record ev q)) qs)
          \<and> map_of (entries (snd (trackPlaylist errorHandler ev qs st))) (channelId ev) =
              Some (Text (channel_with kvs ps (uuid ev)))
          \<and> map_of (entries (snd (trackPlaylist errorHandler ev qs st))) (uuid ev) =
              (if qs = [] then None else Some (Text (snapshot_record ev (last qs))))
          \<and> (\<forall>k. k \<noteq> channelId ev \<and> k \<noteq> uuid ev \<longrightarrow>
                map_of (entries (snd (trackPlaylist errorHandler ev qs st))) k = map_of (entries st) k))
       \<and> get_prop (Some (channel_with kvs ps (uuid ev))) ''playlists'' =
           Inr (Some (JArr (ps @ [JStr (uuid ev)])))
       \<and> (faults st = [] \<longrightarrow> (\<forall>qs. \<exists>js. fst (tracking ev qs st) = Completes js))
       \<and> (\<forall>qs q js0 js e.
             fst (tracking ev qs st) = Completes js0 \<and> fst (tracking ev (qs @ [q]) st) = Fails js e \<longrightarrow>
               js = channel_with kvs ps (uuid ev) # map (snapshot_record ev) qs \<and> e = StoreError
             \<and> map_of (entries (snd (trackPlaylist errorHandler ev (qs @ [q]) st))) (channelId ev) =
                 Some (Text (channel_with kvs ps (uuid ev)))
             \<and> (if qs = []
                then map_of (entries (snd (trackPlaylist errorHandler ev (qs @ [q]) st))) (uuid ev) = None
                   \<or> map_of (entries (snd (trackPlaylist errorHandler ev (qs @ [q]) st))) (uuid ev) =
                       Some (Text (snapshot_record ev []))
                else map_of (entries (snd (trackPlaylist errorHandler ev (qs @ [q]) st))) (uuid ev) =
                       Some (Text (snapshot_record ev (last qs))))
             \<and> (\<forall>k. k \<noteq> channelId ev \<and> k \<noteq> uuid ev \<longrightarrow>
                   map_of (entries (snd (trackPlaylist errorHandler ev (qs @ [q]) st))) k =
                   map_of (entries st) k))
       \<and> (\<forall>qs1 qs2 js e. fst (tracking ev qs1 st) = Fails js e \<longrightarrow>
             trackPlaylist errorHandler ev (qs1 @ qs2) st = trackPlaylist errorHandler ev qs1 st)
       \<and> (\<forall>js e. fst (tracking ev [] st) = Fails js e \<longrightarrow>
             js = [] \<and> e = StoreError
           \<and> map_of (entries (snd (trackPlaylist errorHandler ev [] st))) (uuid ev) = None
           \<and> (\<forall>k. k \<noteq> channelId ev \<longrightarrow>
                 map_of (entries (snd (trackPlaylist errorHandler ev [] st))) k = map_of (entries st) k))"
proof -
  have tp: "trackPlaylist errorHandler ev qs st =
      (catchError (\<lambda>err. map_outcome Handled (errorHandler err))
         (map_outcome TrackingEvent (fst (tracking ev qs st))), snd (tracking ev qs st))" for qs
    by (simp add: trackPlaylist_def case_prod_beta)
  have sn: "snd (trackPlaylist errorHandler ev qs st) = snd (tracking ev qs st)" for qs
    by (simp add: tp)
  have p1: "fst (trackPlaylist errorHandler ev qs st) =
              Completes (TrackingEvent (channel_with kvs ps (uuid ev))
                         # map (\<lambda>q. TrackingEvent (snapshot_record ev q)) qs)
          \<and> map_of (entries (snd (trackPlaylist errorHandler ev qs st))) (channelId ev) =
              Some (Text (channel_with kvs ps (uuid ev)))
          \<and> map_of (entries (snd (trackPlaylist errorHandler ev qs st))) (uuid ev) =
              (if qs = [] then None else Some (Text (snapshot_record ev (last qs))))
          \<and> (\<forall>k. k \<noteq> channelId ev \<and> k \<noteq> uuid ev \<longrightarrow>
                map_of (entries (snd (trackPlaylist errorHandler ev qs st))) k = map_of (entries st) k)"
    if c: "fst (tracking ev qs st) = Completes js" for qs js
  proof -
    note t = tracking_Completes [OF assms c]
    have o: "fst (trackPlaylist errorHandler ev qs st) =
        Completes (map TrackingEvent js)"
      by (simp add: tp c)
    show ?thesis
      unfolding o sn t(2)
      using assms(1,2) by (simp add: t(1) channel_with_def comp_def)
  qed
  have p2: "get_prop (Some (channel_with kvs ps (uuid ev))) ''playlists'' =
           Inr (Some (JArr (ps @ [JStr (uuid ev)])))"
    by (simp add: channel_with_def update_conv')
  have p3: "\<exists>js. fst (tracking ev qs st) = Completes js" if "faults st = []" for qs
    using tracking_ok(1) [OF that assms, of qs] by blast
  have p4: "js = channel_with kvs ps (uuid ev) # map (snapshot_record ev) qs \<and> e = StoreError
             \<and> map_of (entries (snd (trackPlaylist errorHandler ev (qs @ [q]) st))) (channelId ev) =
                 Some (Text (channel_with kvs ps (uuid ev)))
             \<and> (if qs = []
                then map_of (entries (snd (trackPlaylist errorHandler ev (qs @ [q]) st))) (uuid ev) = None
                   \<or> map_of (entries (snd (trackPlaylist errorHandler ev (qs @ [q]) st))) (uuid ev) =
                       Some (Text (snapshot_record ev []))
                else map_of (entries (snd (trackPlaylist errorHandler ev (qs @ [q]) st))) (uuid ev) =
                       Some (Text (snapshot_record ev (last qs))))
             \<and> (\<forall>k. k \<noteq> channelId ev \<and> k \<noteq> uuid ev \<longrightarrow>
                   map_of (entries (snd (trackPlaylist errorHandler ev (qs @ [q]) st))) k =
                   map_of (entries st) k)"
    if "fst (tracking ev qs st) = Completes js0 \<and> fst (tracking ev (qs @ [q]) st) = Fails js e"
    for qs q js0 js e
    unfolding sn channel_with_def
    using tracking_next_Fails [OF assms that [THEN conjunct1] that [THEN conjunct2]] .
  have p5: "trackPlaylist errorHandler ev (qs1 @ qs2) st = trackPlaylist errorHandler ev qs1 st"
    if "fst (tracking ev qs1 st) = Fails js e" for qs1 qs2 js e
    unfolding tp tracking_stops [OF that] ..
  have p6: "js = [] \<and> e = StoreError
           \<and> map_of (entries (snd (trackPlaylist errorHandler ev [] st))) (uuid ev) = None
           \<and> (\<forall>k. k \<noteq> channelId ev \<longrightarrow>
                 map_of (entries (snd (trackPlaylist errorHandler ev [] st))) k = map_of (entries st) k)"
    if "fst (tracking ev [] st) = Fails js e" for js e
    unfolding sn using tracking_nil_Fails [OF assms that] .
  from p1 p2 p3 p4 p5 p6 show ?thesis by blast
qed

theorem trackPlaylist_until_first_error_witness:
  "channelId sample_event \<noteq> uuid sample_event
   \<and> map_of (entries late_fault_store) (uuid sample_event) = None
   \<and> channel_before late_fault_store (channelId sample_event) =
        Some (JObj [meta ''channel'', (''playlists'', JArr [JStr ''u1''])])
   \<and> map_of [meta ''channel'', (''playlists'', JArr [JStr ''u1''])] ''playlists'' =
        Some (JArr [JStr ''u1''])
   \<and> fst (tracking sample_event [[sample_track]] late_fault_store) =
        Completes [JObj [meta ''channel'', (''playlists'', JArr [JStr ''u1'', JStr ''u2''])],
                   snapshot_record sample_event [sample_track]]
   \<and> fst (trackPlaylist report_error sample_event [[sample_track]] late_fault_store) =
        Completes
          [TrackingEvent (channel_with [meta ''channel'', (''playlists'', JArr [JStr ''u1''])]
             [JStr ''u1''] (uuid sample_event)),
           TrackingEvent (snapshot_record sample_event [sample_track])]
   \<and> map_of (entries (snd (trackPlaylist report_error sample_event [[sample_track]] late_fault_store)))
        (uuid sample_event) = Some (Text (snapshot_record sample_event [sample_track]))
   \<and> fst (tracking sample_event ([[sample_track]] @ [[]]) late_fault_store) =
        Fails [JObj [meta ''channel'', (''playlists'', JArr [JStr ''u1'', JStr ''u2''])],
               snapshot_record sample_event [sample_track]] StoreError
   \<and> map_of (entries (snd (trackPlaylist report_error sample_event ([[sample_track]] @ [[]])
        late_fault_store))) (uuid sample_event) =
        Some (Text (snapshot_record sample_event [sample_track]))
   \<and> trackPlaylist report_error sample_event (([[sample_track]] @ [[]]) @ [[sample_track]])
        late_fault_store =
      trackPlaylist report_error sample_event ([[sample_track]] @ [[]]) late_fault_store
   \<and> faults sample_store = []
   \<and> map_of (entries sample_store) (uuid sample_event) = None
   \<and> channel_before sample_store (channelId sample_event) =
        Some (JObj [meta ''channel'', (''playlists'', JArr [JStr ''u1''])])
   \<and> (\<exists>js. fst (tracking sample_event [[sample_track], []] sample_store) = Completes js)
   \<and> map_of (entries failing_store) (uuid sample_event) = None
   \<and> channel_before failing_store (channelId sample_event) =
        Some (JObj [meta ''channel'', (''playlists'', JArr [JStr ''u1''])])
   \<and> fst (tracking sample_event [] failing_store) = Fails [] StoreError
   \<and> map_of (entries (snd (trackPlaylist report_error sample_event [] failing_store)))
        (uuid sample_event) = None"
proof -
  let ?kvs = "[meta ''channel'', (''playlists'', JArr [JStr ''u1''])]"
  have h0: "channelId sample_event \<noteq> uuid sample_event"
    "map_of ?kvs ''playlists'' = Some (JArr [JStr ''u1''])"
    by (simp_all add: sample_event_def meta_def)
  have hl: "map_of (entries late_fault_store) (uuid sample_event) = None"
    "channel_before late_fault_store (channelId sample_event) = Some (JObj ?kvs)"
    by (simp_all add: late_fault_store_def sample_event_def channel_before_def sample_channel_def)
  have hs: "faults sample_store = []"
    "map_of (entries sample_store) (uuid sample_event) = None"
    "channel_before sample_store (channelId sample_event) = Some (JObj ?kvs)"
    by (simp_all add: sample_store_def sample_event_def channel_before_def sample_channel_def)
  have hf: "map_of (entries failing_store) (uuid sample_event) = None"
    "channel_before failing_store (channelId sample_event) = Some (JObj ?kvs)"
    by (simp_all add: failing_store_def sample_event_def channel_before_def sample_channel_def)
  note defs = tracking_def tick_def createPlaylist_def getOrCreate_def repo_get_def repo_put_def
    store_get_def store_put_def sample_event_def sample_channel_def sample_playlist_def meta_def
    JSON_stringify_def snapshot_def snapshot_record_def playlist_default_def
  have c1: "fst (tracking sample_event [[sample_track]] late_fault_store) =
        Completes [JObj [meta ''channel'', (''playlists'', JArr [JStr ''u1'', JStr ''u2''])],
                   snapshot_record sample_event [sample_track]]"
    by (simp add: defs late_fault_store_def)
  have c2: "fst (tracking sample_event ([[sample_track]] @ [[]]) late_fault_store) =
        Fails [JObj [meta ''channel'', (''playlists'', JArr [JStr ''u1'', JStr ''u2''])],
               snapshot_record sample_event [sample_track]] StoreError"
    by (simp add: defs late_fault_store_def)
  have c3: "fst (tracking sample_event [] failing_store) = Fails [] StoreError"
    by (simp add: defs failing_store_def)
  note tl = trackPlaylist_until_first_error [OF h0(1) hl h0(2), where errorHandler = report_error]
  note ts = trackPlaylist_until_first_error [OF h0(1) hs(2,3) h0(2), where errorHandler = report_error]
  note tf = trackPlaylist_until_first_error [OF h0(1) hf h0(2), where errorHandler = report_error]
  note a = tl [THEN conjunct1, rule_format, OF c1]
  note a1 = a [THEN conjunct1, simplified]
  have a2: "map_of (entries (snd (trackPlaylist report_error sample_event [[sample_track]] late_fault_store)))
        (uuid sample_event) = Some (Text (snapshot_record sample_event [sample_track]))"
    using a [THEN conjunct2, THEN conjunct2, THEN conjunct1] by simp
  note b = tl [THEN conjunct2, THEN conjunct2, THEN conjunct2, THEN conjunct1, rule_format,
      OF conjI [OF c1 c2]]
  have b1: "map_of (entries (snd (trackPlaylist report_error sample_event ([[sample_track]] @ [[]])
        late_fault_store))) (uuid sample_event) =
        Some (Text (snapshot_record sample_event [sample_track]))"
    using b [THEN conjunct2, THEN conjunct2, THEN conjunct2, THEN conjunct1] by simp
  note c = tl [THEN conjunct2, THEN conjunct2, THEN conjunct2, THEN conjunct2, THEN conjunct1,
      rule_format, OF c2, of "[[sample_track]]"]
  note d = ts [THEN conjunct2, THEN conjunct2, THEN conjunct1, rule_format, OF hs(1),
      of "[[sample_track], []]"]
  note e = tf [THEN conjunct2, THEN conjunct2, THEN conjunct2, THEN conjunct2, THEN conjunct2,
      rule_format, OF c3, THEN conjunct2, THEN conjunct2, THEN conjunct1]
  show ?thesis
    by (intro conjI) (rule h0 hl hs hf c1 c2 c3 a1 a2 b1 c d e)+
qed

text \<open>
  C7: whatever the store holds and whichever of its operations fail, the stream that
  trackPlaylist returns never ends with an error, provided the observable that errorHandler
  returns does not: an error of the persistence pipeline is replaced by the results of
  errorHandler, after which the stream completes.
\<close>

theorem trackPlaylist_never_fails:
  assumes "\<forall>e. \<exists>rs. errorHandler e = Completes rs"
  shows "(\<exists>rs. fst (trackPlaylist errorHandler ev qs st) = Completes rs)
       \<and> (\<forall>js e. fst (tracking ev qs st) = Fails js e \<longrightarrow>
            (\<exists>rs. errorHandler e = Completes rs
               \<and> fst (trackPlaylist errorHandler ev qs st) =
                   Completes (map TrackingEvent js @ map Handled rs)))"
proof -
  have e: "fst (trackPlaylist errorHandler ev qs st) =
      catchError (\<lambda>err. map_outcome Handled (errorHandler err))
         (map_outcome TrackingEvent (fst (tracking ev qs st)))"
    by (simp add: trackPlaylist_def case_prod_beta)
  show ?thesis
  proof (cases "fst (tracking ev qs st)")
    case (Completes js)
    then show ?thesis unfolding e by simp
  next
    case (Fails js err)
    from assms obtain rs where rs: "errorHandler err = Completes rs" by blast
    with Fails show ?thesis unfolding e by simp
  qed
qed

theorem trackPlaylist_never_fails_witness:
  "(\<forall>e. \<exists>rs. report_error e = Completes rs)
   \<and> fst (tracking sample_event [[sample_track]] failing_store) = Fails [] StoreError
   \<and> report_error StoreError = Completes [StoreError]
   \<and> fst (trackPlaylist report_error sample_event [[sample_track]] failing_store) =
        Completes [Handled StoreError]"
proof -
  have h: "\<forall>e. \<exists>rs. report_error e = Completes rs"
    by (simp add: report_error_def)
  have f: "fst (tracking sample_event [[sample_track]] failing_store) = Fails [] StoreError"
    by (simp add: tracking_def tick_def failing_store_def createPlaylist_def getOrCreate_def
        repo_get_def repo_put_def store_get_def store_put_def sample_event_def sample_channel_def
        meta_def JSON_stringify_def)
  have r: "report_error StoreError = Completes [StoreError]"
    by (simp add: report_error_def)
  from trackPlaylist_never_fails [OF h, where ev = sample_event and qs = "[[sample_track]]"
      and st = failing_store, THEN conjunct2, rule_format, OF f]
  have t: "fst (trackPlaylist report_error sample_event [[sample_track]] failing_store) =
        Completes [Handled StoreError]"
    unfolding r by simp
  show ?thesis
    by (intro conjI) (rule h f r t)+
qed

end
